theory Spec2Isabelle
  imports Main "HOL-Library.Char_ord" "HOL-Library.List_Lexorder"
begin

section \<open>Guess Number AI: the embedding of main.py\<close>

text \<open>
  The program is a solver for the four-digit, distinct-digit guessing game. This theory
  embeds the classes \<open>GuessNumberChecker\<close>, \<open>GuessNumberTree\<close> and \<open>GuessNumberAI\<close> of
  \<^verbatim>\<open>src/main.py\<close>.

  Conventions of the embedding.
  \<^item> A Python \<open>str\<close> is a list of code points. The model covers the code points below 256:
    a \<^typ>\<open>char\<close> is read as the code point \<^term>\<open>of_char c :: nat\<close>.
  \<^item> Every exception of the source is a value of \<open>error\<close>; a function that can raise
    returns \<open>error + 'a\<close>, with \<open>Inl\<close> the exception.
  \<^item> A Python \<open>set\<close> of strings is carried as the list of its members in iteration order,
    without duplicates. Python does not fix the order of iteration of a set, and nothing
    the engine returns depends on it: the filter keeps a member by a test on that member
    alone, the score counts members, and the shortcut takes the only member. The theorems
    about a record set assume a list without duplicates, in any order.
  \<^item> Object fields become record fields; a method takes the object and returns it updated.
\<close>

datatype error = IndexError | ValueError | KeyError

subsection \<open>Strings, digits and formatting\<close>

text \<open>
  \<open>str.isnumeric()\<close>: true when the string is not empty and every character has a Unicode
  numeric value. Below code point 256 these characters are the decimal digits
  \<open>0\<close> to \<open>9\<close> (48 to 57), the superscripts two, three and one (178, 179, 185) and the
  vulgar fractions one quarter, one half and three quarters (188, 189, 190).
\<close>

definition isnumeric_char :: "char \<Rightarrow> bool" where
  "isnumeric_char c \<longleftrightarrow>
     (48 \<le> (of_char c :: nat) \<and> (of_char c :: nat) \<le> 57) \<or>
     (of_char c :: nat) \<in> {178, 179, 185, 188, 189, 190}"

definition isnumeric :: "string \<Rightarrow> bool" where
  "isnumeric s \<longleftrightarrow> s \<noteq> [] \<and> list_all isnumeric_char s"

text \<open>
  \<open>int(c)\<close> for a string of one character: the value of a decimal digit, \<open>ValueError\<close>
  for every other code point below 256.
\<close>

definition int_of_char :: "char \<Rightarrow> error + nat" where
  "int_of_char c =
     (if 48 \<le> (of_char c :: nat) \<and> (of_char c :: nat) \<le> 57
      then Inr (of_char c - 48) else Inl ValueError)"

definition digit_char :: "nat \<Rightarrow> char" where
  "digit_char d = char_of (48 + d)"

text \<open>The decimal digits of a non-negative integer, as \<open>'{}'.format(n)\<close> writes them.\<close>

fun decimal :: "nat \<Rightarrow> string" where
  "decimal n =
     (if n < 10 then [digit_char n] else decimal (n div 10) @ [digit_char (n mod 10)])"

declare decimal.simps [simp del]

text \<open>\<open>'{:04d}'.format(i)\<close>: the decimal digits, padded with zeros on the left to width 4.\<close>

definition format_04d :: "nat \<Rightarrow> string" where
  "format_04d i = (let d = decimal i in replicate (4 - length d) CHR ''0'' @ d)"

subsection \<open>The validity predicate\<close>

text \<open>
  \<open>GuessNumberChecker.is_valid_answer\<close> and \<open>GuessNumberAI.is_valid_answer\<close> have the same
  body, embedded once. The loop \<open>for i in range(3)\<close> returns \<open>False\<close> at the first
  \<open>target[i]\<close> that occurs in the slice \<open>target[i + 1:]\<close>.
\<close>

fun no_repeat_loop :: "string \<Rightarrow> nat list \<Rightarrow> bool" where
  "no_repeat_loop target [] = True"
| "no_repeat_loop target (i # is) =
     (if target ! i \<in> set (drop (i + 1) target) then False else no_repeat_loop target is)"

definition is_valid_answer :: "string \<Rightarrow> bool" where
  "is_valid_answer answer_number =
     (let target = answer_number in
      if length target \<noteq> 4 then False
      else if \<not> isnumeric target then False
      else no_repeat_loop target [0..<3])"

subsection \<open>The scorer\<close>

text \<open>
  The loop
  \<^verbatim>\<open>for i in range(4): if x[i] == y[i]: count_a += 1 elif x[i] in y: count_b += 1\<close>
  occurs three times in the source, in \<open>GuessNumberChecker.answer\<close> (x the query, y the
  answer number), in \<open>_check_result\<close> (x the number, y the previous guess) and in
  \<open>_calculate_score\<close> (x the number, y the key). Indexing past the end of a string raises
  \<open>IndexError\<close>.
\<close>

fun count_step :: "string \<Rightarrow> string \<Rightarrow> nat \<times> nat \<Rightarrow> nat \<Rightarrow> error + nat \<times> nat" where
  "count_step x y (count_a, count_b) i =
     (if i < length x \<and> i < length y then
        (if x ! i = y ! i then Inr (count_a + 1, count_b)
         else if x ! i \<in> set y then Inr (count_a, count_b + 1)
         else Inr (count_a, count_b))
      else Inl IndexError)"

fun count_loop :: "string \<Rightarrow> string \<Rightarrow> nat \<times> nat \<Rightarrow> nat list \<Rightarrow> error + nat \<times> nat" where
  "count_loop x y acc [] = Inr acc"
| "count_loop x y acc (i # is) =
     (case count_step x y acc i of
        Inl e \<Rightarrow> Inl e
      | Inr acc' \<Rightarrow> count_loop x y acc' is)"

definition count_ab :: "string \<Rightarrow> string \<Rightarrow> error + nat \<times> nat" where
  "count_ab x y = count_loop x y (0, 0) [0..<4]"

text \<open>\<open>GuessNumberChecker(answer_number).answer(query)\<close>, the string \<open>aAbB\<close>.\<close>

definition answer :: "string \<Rightarrow> string \<Rightarrow> error + string" where
  "answer answer_number query =
     (case count_ab query answer_number of
        Inl e \<Rightarrow> Inl e
      | Inr (count_a, count_b) \<Rightarrow> Inr (decimal count_a @ ''A'' @ decimal count_b @ ''B''))"

subsection \<open>The decision tree and the engine state\<close>

text \<open>
  A \<open>TreeNode\<close> holds the guess \<open>record\<close> and the list \<open>next\<close> of 25 children, each
  \<open>None\<close> or a node. Every node is owned by exactly one parent, so the tree is a value.
\<close>

datatype TreeNode = TreeNode (node_record: string) (node_next: "TreeNode option list")

record GuessNumberTree =
  root :: TreeNode

definition GuessNumberTree_new :: GuessNumberTree where
  "GuessNumberTree_new = \<lparr>root = TreeNode ''0123'' (replicate 25 None)\<rparr>"

text \<open>
  The fields \<open>_numbers\<close> and \<open>_number_list\<close> are assigned once, in \<open>__init__\<close>, from no
  input, and never again: they are constants. \<open>_numbers\<close> is the set comprehension over
  \<open>range(10000)\<close>, \<open>_number_list\<close> is \<open>list(sorted(_numbers))\<close>; Python compares strings
  lexicographically by code point.
\<close>

definition numbers :: "string set" where
  "numbers = set (filter is_valid_answer (map format_04d [0..<10000]))"

definition number_list :: "string list" where
  "number_list = sorted_list_of_set numbers"

text \<open>The decimal digits \<open>0\<close> to \<open>9\<close>, for the statements about the candidate space.\<close>

definition digit_chars :: "char set" where
  "digit_chars = {c. CHR ''0'' \<le> c \<and> c \<le> CHR ''9''}"

record GuessNumberAI =
  previous :: string
  log :: "(nat \<times> nat) list"
  records :: "string list"
  tree :: GuessNumberTree

text \<open>\<open>initialize\<close>: the record set becomes a copy of \<open>_numbers\<close>.\<close>

definition initialize :: "GuessNumberAI \<Rightarrow> GuessNumberAI" where
  "initialize s = s\<lparr>previous := [], log := [], records := sorted_list_of_set numbers\<rparr>"

text \<open>\<open>GuessNumberAI()\<close>: the constructor assigns the fields and calls \<open>initialize\<close>.\<close>

definition GuessNumberAI_new :: GuessNumberAI where
  "GuessNumberAI_new =
     initialize \<lparr>previous = [], log = [], records = [], tree = GuessNumberTree_new\<rparr>"

subsection \<open>Filtering the record set\<close>

text \<open>
  The feedback counts \<open>a\<close> and \<open>b\<close> are results of \<open>int\<close> on one character, hence
  natural numbers.
\<close>

definition check_result :: "GuessNumberAI \<Rightarrow> string \<Rightarrow> nat \<Rightarrow> nat \<Rightarrow> error + bool" where
  "check_result s number a b =
     (case count_ab number (previous s) of
        Inl e \<Rightarrow> Inl e
      | Inr (count_a, count_b) \<Rightarrow> Inr (count_a = a \<and> count_b = b))"

text \<open>The list comprehension \<open>to_delete\<close>; it raises before anything is removed.\<close>

fun to_delete_loop :: "GuessNumberAI \<Rightarrow> nat \<Rightarrow> nat \<Rightarrow> string list \<Rightarrow> error + string list" where
  "to_delete_loop s a b [] = Inr []"
| "to_delete_loop s a b (key # keys) =
     (case check_result s key a b of
        Inl e \<Rightarrow> Inl e
      | Inr ok \<Rightarrow>
          (case to_delete_loop s a b keys of
             Inl e \<Rightarrow> Inl e
           | Inr ds \<Rightarrow> Inr (if \<not> ok then key # ds else ds)))"

text \<open>\<open>set.remove(key)\<close> raises \<open>KeyError\<close> when the key is not a member.\<close>

fun remove_loop :: "string list \<Rightarrow> string list \<Rightarrow> error + string list" where
  "remove_loop recs [] = Inr recs"
| "remove_loop recs (key # keys) =
     (if key \<in> set recs then remove_loop (removeAll key recs) keys else Inl KeyError)"

definition filter_record :: "GuessNumberAI \<Rightarrow> nat \<Rightarrow> nat \<Rightarrow> error + GuessNumberAI" where
  "filter_record s a b =
     (case to_delete_loop s a b (records s) of
        Inl e \<Rightarrow> Inl e
      | Inr to_delete \<Rightarrow>
          (case remove_loop (records s) to_delete of
             Inl e \<Rightarrow> Inl e
           | Inr recs \<Rightarrow> Inr (s\<lparr>records := recs\<rparr>)))"

subsection \<open>The minimax score\<close>

fun score_loop :: "string \<Rightarrow> string list \<Rightarrow> nat list \<Rightarrow> error + nat list" where
  "score_loop number [] result = Inr result"
| "score_loop number (key # keys) result =
     (case count_ab number key of
        Inl e \<Rightarrow> Inl e
      | Inr (count_a, count_b) \<Rightarrow>
          (if count_a * 5 + count_b < length result
           then score_loop number keys
                  (result[count_a * 5 + count_b := result ! (count_a * 5 + count_b) + 1])
           else Inl IndexError))"

definition calculate_score :: "GuessNumberAI \<Rightarrow> string \<Rightarrow> error + nat" where
  "calculate_score s number =
     (case score_loop number (records s) (replicate 25 0) of
        Inl e \<Rightarrow> Inl e
      | Inr result \<Rightarrow> Inr (Max (set result)))"

text \<open>
  The scan of \<open>guess\<close> over \<open>_number_list\<close>. The candidate starts as \<open>('', 1e5)\<close>; an
  integer score is below the float \<open>1e5\<close> exactly when it is below 100000.
\<close>

fun scan :: "GuessNumberAI \<Rightarrow> string list \<Rightarrow> string \<times> nat \<Rightarrow> error + string \<times> nat" where
  "scan s [] candidate = Inr candidate"
| "scan s (key # keys) candidate =
     (case calculate_score s key of
        Inl e \<Rightarrow> Inl e
      | Inr key_score \<Rightarrow>
          scan s keys (if key_score < snd candidate then (key, key_score) else candidate))"

subsection \<open>The decision cache\<close>

text \<open>
  The loop shared by \<open>_search_tree\<close> and \<open>_update_tree\<close>: for each pair of the log, move to
  the child when it is not \<open>None\<close>, stay at the current node otherwise. A list index past
  the end raises \<open>IndexError\<close>.
\<close>

fun walk :: "TreeNode \<Rightarrow> (nat \<times> nat) list \<Rightarrow> error + TreeNode" where
  "walk tree_node [] = Inr tree_node"
| "walk tree_node (key # keys) =
     (if fst key * 5 + snd key < length (node_next tree_node) then
        (case node_next tree_node ! (fst key * 5 + snd key) of
           None \<Rightarrow> walk tree_node keys
         | Some child \<Rightarrow> walk child keys)
      else Inl IndexError)"

definition search_tree :: "GuessNumberAI \<Rightarrow> nat \<Rightarrow> nat \<Rightarrow> error + string" where
  "search_tree s a b =
     (case walk (root (tree s)) (log s) of
        Inl e \<Rightarrow> Inl e
      | Inr tree_node \<Rightarrow>
          (if a * 5 + b < length (node_next tree_node) then
             (case node_next tree_node ! (a * 5 + b) of
                None \<Rightarrow> Inr []
              | Some child \<Rightarrow> Inr (node_record child))
           else Inl IndexError))"

text \<open>
  \<open>_update_tree\<close> assigns to a slot of the node the walk reaches. On the tree as a value
  this is the same walk, with the path to that node rebuilt on the way back.
\<close>

fun update_node :: "TreeNode \<Rightarrow> (nat \<times> nat) list \<Rightarrow> string \<Rightarrow> nat \<Rightarrow> nat \<Rightarrow> error + TreeNode" where
  "update_node tree_node [] next_guess a b =
     (if a * 5 + b < length (node_next tree_node) then
        (case node_next tree_node ! (a * 5 + b) of
           None \<Rightarrow>
             Inr (TreeNode (node_record tree_node)
                    ((node_next tree_node)[a * 5 + b := Some (TreeNode next_guess (replicate 25 None))]))
         | Some child \<Rightarrow> Inr tree_node)
      else Inl IndexError)"
| "update_node tree_node (key # keys) next_guess a b =
     (if fst key * 5 + snd key < length (node_next tree_node) then
        (case node_next tree_node ! (fst key * 5 + snd key) of
           None \<Rightarrow> update_node tree_node keys next_guess a b
         | Some child \<Rightarrow>
             (case update_node child keys next_guess a b of
                Inl e \<Rightarrow> Inl e
              | Inr child' \<Rightarrow>
                  Inr (TreeNode (node_record tree_node)
                         ((node_next tree_node)[fst key * 5 + snd key := Some child']))))
      else Inl IndexError)"

definition update_tree :: "GuessNumberAI \<Rightarrow> string \<Rightarrow> nat \<Rightarrow> nat \<Rightarrow> error + GuessNumberAI" where
  "update_tree s next_guess a b =
     (case update_node (root (tree s)) (log s) next_guess a b of
        Inl e \<Rightarrow> Inl e
      | Inr r \<Rightarrow> Inr (s\<lparr>tree := (tree s)\<lparr>root := r\<rparr>\<rparr>))"

subsection \<open>The guess operation\<close>

text \<open>\<open>a, b = int(result[0]), int(result[2])\<close>.\<close>

definition parse_result :: "string \<Rightarrow> error + nat \<times> nat" where
  "parse_result result =
     (if length result < 1 then Inl IndexError
      else case int_of_char (result ! 0) of
        Inl e \<Rightarrow> Inl e
      | Inr a \<Rightarrow>
          (if length result < 3 then Inl IndexError
           else case int_of_char (result ! 2) of
             Inl e \<Rightarrow> Inl e
           | Inr b \<Rightarrow> Inr (a, b)))"

text \<open>
  \<open>guess\<close> returns along one of four paths. \<open>guess_traced\<close> is \<open>guess\<close> with the path
  taken returned beside the guess, so that a theorem can say whether the minimax scan ran;
  \<open>guess\<close> forgets it. An exception leaves \<open>guess\<close> and, in this program, the caller too
  (\<open>play\<close> and \<open>main\<close> catch none of them), so no state is returned with it.
\<close>

datatype branch = Opening | Single | Cached | Scanned

definition guess_traced ::
  "GuessNumberAI \<Rightarrow> string option \<Rightarrow> error + string \<times> branch \<times> GuessNumberAI" where
  "guess_traced s result =
     (case result of
        None \<Rightarrow> Inr (''0123'', Opening, (initialize s)\<lparr>previous := ''0123''\<rparr>)
      | Some r \<Rightarrow>
          (case parse_result r of
             Inl e \<Rightarrow> Inl e
           | Inr (a, b) \<Rightarrow>
               (case filter_record s a b of
                  Inl e \<Rightarrow> Inl e
                | Inr s1 \<Rightarrow>
                    (if length (records s1) = 1 then Inr (hd (records s1), Single, s1)
                     else
                       (case search_tree s1 a b of
                          Inl e \<Rightarrow> Inl e
                        | Inr search_result \<Rightarrow>
                            (if search_result \<noteq> [] then
                               Inr (search_result, Cached,
                                    s1\<lparr>previous := search_result, log := log s1 @ [(a, b)]\<rparr>)
                             else
                               (case scan s1 number_list ([], 100000) of
                                  Inl e \<Rightarrow> Inl e
                                | Inr candidate \<Rightarrow>
                                    (case update_tree s1 (fst candidate) a b of
                                       Inl e \<Rightarrow> Inl e
                                     | Inr s2 \<Rightarrow>
                                         Inr (fst candidate, Scanned,
                                              s2\<lparr>previous := fst candidate,
                                                 log := log s2 @ [(a, b)]\<rparr>)))))))))"

definition guess :: "GuessNumberAI \<Rightarrow> string option \<Rightarrow> error + string \<times> GuessNumberAI" where
  "guess s result =
     (case guess_traced s result of
        Inl e \<Rightarrow> Inl e
      | Inr (g, br, s') \<Rightarrow> Inr (g, s'))"

subsection \<open>Definitions for the statements\<close>

text \<open>
  The lookup as the specification words it: walk from the root along the child edge of
  each feedback pair of the history, in order, and stop with "not found" at the first
  child that is absent. \<open>strict_walk\<close> gives the node reached, \<open>spec_lookup\<close> its guess.
  It is compared below with \<open>search_tree\<close>, the lookup of the source.
\<close>

fun strict_walk :: "TreeNode \<Rightarrow> (nat \<times> nat) list \<Rightarrow> TreeNode option" where
  "strict_walk tree_node [] = Some tree_node"
| "strict_walk tree_node (key # keys) =
     (if fst key * 5 + snd key < length (node_next tree_node) then
        (case node_next tree_node ! (fst key * 5 + snd key) of
           None \<Rightarrow> None
         | Some child \<Rightarrow> strict_walk child keys)
      else None)"

definition spec_lookup :: "TreeNode \<Rightarrow> (nat \<times> nat) list \<Rightarrow> string option" where
  "spec_lookup tree_node history = map_option node_record (strict_walk tree_node history)"

text \<open>
  The minimax score as the specification words it: the record set is partitioned into the
  25 buckets of the pairs \<open>(a, b)\<close> with \<open>a, b < 5\<close> by the score of the candidate against
  each record; the candidate's score is the size of the largest bucket. It is compared
  below with \<open>calculate_score\<close>. \<open>slot\<close> names the index \<open>count_a * 5 + count_b\<close> that
  \<open>_calculate_score\<close> increments for a key.
\<close>

definition bucket :: "string list \<Rightarrow> string \<Rightarrow> nat \<times> nat \<Rightarrow> string set" where
  "bucket recs g ab = {key \<in> set recs. count_ab g key = Inr ab}"

definition largest_bucket :: "string list \<Rightarrow> string \<Rightarrow> nat" where
  "largest_bucket recs g = Max ((\<lambda>ab. card (bucket recs g ab)) ` ({0..<5} \<times> {0..<5}))"

definition slot :: "string \<Rightarrow> string \<Rightarrow> nat" where
  "slot g key = (case count_ab g key of Inl e \<Rightarrow> 0 | Inr (a, b) \<Rightarrow> a * 5 + b)"

text \<open>
  A sequence of calls of \<open>guess\<close> on one engine, each with the result string of the caller
  (\<open>None\<close> to open a game); an exception ends the sequence. A game session is what \<open>play\<close>
  does with the engine: \<open>initialize\<close>, the opening call, then one call per feedback string.
\<close>

fun calls ::
  "GuessNumberAI \<Rightarrow> string option list \<Rightarrow> error + (string \<times> branch) list \<times> GuessNumberAI" where
  "calls s [] = Inr ([], s)"
| "calls s (r # rs) =
     (case guess_traced s r of
        Inl e \<Rightarrow> Inl e
      | Inr (g, br, s') \<Rightarrow>
          (case calls s' rs of
             Inl e \<Rightarrow> Inl e
           | Inr (out, s'') \<Rightarrow> Inr ((g, br) # out, s'')))"

definition session ::
  "GuessNumberAI \<Rightarrow> string list \<Rightarrow> error + (string \<times> branch) list \<times> GuessNumberAI" where
  "session s feedback = calls (initialize s) (None # map Some feedback)"

text \<open>
  The states of an engine: the state the constructor builds, and every state that a call
  of \<open>initialize\<close> or a call of \<open>guess\<close> that returns leaves behind.
\<close>

inductive reachable :: "GuessNumberAI \<Rightarrow> bool" where
  reachable_new: "reachable GuessNumberAI_new"
| reachable_initialize: "reachable s \<Longrightarrow> reachable (initialize s)"
| reachable_guess: "reachable s \<Longrightarrow> guess s r = Inr (g, s') \<Longrightarrow> reachable s'"

text \<open>
  For the proofs about the cache: one tree extends another when every path present in the
  first is present in the second, with the same guess; and the facts that hold of every
  state the engine reaches.
\<close>

definition tree_le :: "TreeNode \<Rightarrow> TreeNode \<Rightarrow> bool" where
  "tree_le t t' \<longleftrightarrow>
     (\<forall>h n. strict_walk t h = Some n \<longrightarrow>
        (\<exists>n'. strict_walk t' h = Some n' \<and> node_record n' = node_record n))"

definition engine_inv :: "GuessNumberAI \<Rightarrow> bool" where
  "engine_inv s \<longleftrightarrow>
     distinct (records s) \<and> set (records s) \<subseteq> numbers \<and>
     strict_walk (root (tree s)) (log s) \<noteq> None \<and>
     (\<forall>h n. strict_walk (root (tree s)) h = Some n \<longrightarrow> node_record n \<noteq> [])"

section \<open>Properties\<close>

subsection \<open>Small facts about ranges, digits and formatting\<close>

lemma upt_0_3: "[0..<3] = [0, 1, 2]"
  by (simp add: upt_rec)

lemma upt_0_4: "[0..<4] = [0, 1, 2, 3]"
  by (simp add: upt_rec)

lemma length_4_obtain:
  assumes "length (s :: 'a list) = 4"
  obtains a b c d where "s = [a, b, c, d]"
  using assms by (auto simp: length_Suc_conv numeral_eq_Suc)

lemma of_char_digit_char: "d < 10 \<Longrightarrow> (of_char (digit_char d) :: nat) = 48 + d"
  by (simp add: digit_char_def of_char_of)

lemma digit_char_values:
  "digit_char 0 = CHR ''0''" "digit_char 1 = CHR ''1''" "digit_char 2 = CHR ''2''"
  "digit_char 3 = CHR ''3''" "digit_char 4 = CHR ''4''" "digit_char 5 = CHR ''5''"
  "digit_char 6 = CHR ''6''" "digit_char 7 = CHR ''7''" "digit_char 8 = CHR ''8''"
  "digit_char 9 = CHR ''9''"
  by code_simp+

lemma decimal_digit: "n < 10 \<Longrightarrow> decimal n = [digit_char n]"
  by (simp add: decimal.simps)

lemma int_of_digit_char: "d < 10 \<Longrightarrow> int_of_char (digit_char d) = Inr d"
  by (simp add: int_of_char_def of_char_digit_char)

lemma parse_result_answer:
  assumes "a < 10" "b < 10"
  shows "parse_result (decimal a @ ''A'' @ decimal b @ ''B'') = Inr (a, b)"
  using assms by (simp add: parse_result_def decimal_digit int_of_digit_char)

subsection \<open>The validity predicate\<close>

lemma is_valid_answer_iff:
  "is_valid_answer s \<longleftrightarrow> length s = 4 \<and> list_all isnumeric_char s \<and> distinct s"
proof (cases "length s = 4")
  case False
  then show ?thesis by (simp add: is_valid_answer_def)
next
  case True
  then obtain a b c d where "s = [a, b, c, d]" by (rule length_4_obtain)
  then show ?thesis
    by (auto simp: is_valid_answer_def isnumeric_def upt_0_3)
qed

text \<open>On strings of ASCII characters the predicate accepts exactly the four distinct digits.\<close>

lemma is_valid_answer_ascii:
  assumes "\<forall>c \<in> set s. (of_char c :: nat) < 128"
  shows "is_valid_answer s \<longleftrightarrow>
         length s = 4 \<and> (\<forall>c \<in> set s. 48 \<le> (of_char c :: nat) \<and> (of_char c :: nat) \<le> 57) \<and> distinct s"
proof -
  have "list_all isnumeric_char s \<longleftrightarrow> (\<forall>c \<in> set s. 48 \<le> (of_char c :: nat) \<and> (of_char c :: nat) \<le> 57)"
    using assms by (fastforce simp: list_all_iff isnumeric_char_def)
  then show ?thesis by (simp add: is_valid_answer_iff)
qed

text \<open>
  Claim C8. The validity predicate is meant to hold exactly for the strings of length 4
  whose characters are digits \<open>0\<close> to \<open>9\<close>, none twice. The code tests the characters with
  \<open>isnumeric\<close>, which also accepts numeric characters that are no decimal digits: the
  string made of superscript two, superscript three, superscript one and the fraction one
  quarter is accepted, although none of its characters is a digit \<open>0\<close> to \<open>9\<close>.
\<close>

theorem is_valid_answer_accepts_non_digits:
  "is_valid_answer [CHR 0xB2, CHR 0xB3, CHR 0xB9, CHR 0xBC] \<and>
   length [CHR 0xB2, CHR 0xB3, CHR 0xB9, CHR 0xBC] = 4 \<and>
   distinct [CHR 0xB2, CHR 0xB3, CHR 0xB9, CHR 0xBC] \<and>
   \<not> list_all (\<lambda>c. CHR ''0'' \<le> c \<and> c \<le> CHR ''9'') [CHR 0xB2, CHR 0xB3, CHR 0xB9, CHR 0xBC]"
  by (simp add: is_valid_answer_iff isnumeric_char_def)

subsection \<open>The scorer\<close>

lemma count_ab_ge4:
  assumes "4 \<le> length x" "4 \<le> length y"
  shows "\<exists>a b. count_ab x y = Inr (a, b) \<and> a + b \<le> 4"
  using assms by (auto simp add: count_ab_def upt_0_4)

lemma count_ab_4:
  "count_ab [x0, x1, x2, x3] [y0, y1, y2, y3] = Inr (a, b) \<Longrightarrow> a = 4 \<Longrightarrow>
   x0 = y0 \<and> x1 = y1 \<and> x2 = y2 \<and> x3 = y3"
  by (simp add: count_ab_def upt_0_4 split: if_splits)

lemma count_ab_all_equal:
  assumes "length x = 4" "length y = 4" "count_ab x y = Inr (4, b)"
  shows "x = y"
proof -
  from assms(1) obtain x0 x1 x2 x3 where x: "x = [x0, x1, x2, x3]" by (rule length_4_obtain)
  from assms(2) obtain y0 y1 y2 y3 where y: "y = [y0, y1, y2, y3]" by (rule length_4_obtain)
  from assms(3) show ?thesis unfolding x y by (auto dest: count_ab_4)
qed

lemma count_ab_self:
  assumes "length x = 4"
  shows "count_ab x x = Inr (4, 0)"
  using assms by (simp add: count_ab_def upt_0_4)

text \<open>The loop counts the positions that agree and the positions that match elsewhere.\<close>

lemma count_loop_filter:
  assumes "\<forall>i \<in> set is. i < length x \<and> i < length y"
  shows "count_loop x y (a, b) is =
         Inr (a + length (filter (\<lambda>i. x ! i = y ! i) is),
              b + length (filter (\<lambda>i. x ! i \<noteq> y ! i \<and> x ! i \<in> set y) is))"
  using assms by (induction "is" arbitrary: a b) auto

lemma count_ab_filter:
  assumes "4 \<le> length x" "4 \<le> length y"
  shows "count_ab x y =
         Inr (length (filter (\<lambda>i. x ! i = y ! i) [0..<4]),
              length (filter (\<lambda>i. x ! i \<noteq> y ! i \<and> x ! i \<in> set y) [0..<4]))"
  unfolding count_ab_def using assms by (subst count_loop_filter) auto

lemma common_count:
  assumes "distinct x"
  shows "length (filter (\<lambda>i. x ! i \<in> S) [0..<length x]) = card (set x \<inter> S)"
proof -
  have "length (filter (\<lambda>i. x ! i \<in> S) [0..<length x]) =
        length (filter (\<lambda>c. c \<in> S) (map (\<lambda>i. x ! i) [0..<length x]))"
    by (simp add: filter_map comp_def)
  also have "map (\<lambda>i. x ! i) [0..<length x] = x" by (rule map_nth)
  also have "length (filter (\<lambda>c. c \<in> S) x) = card (set (filter (\<lambda>c. c \<in> S) x))"
    by (rule distinct_card [symmetric]) (simp add: assms)
  also have "set (filter (\<lambda>c. c \<in> S) x) = set x \<inter> S" by auto
  finally show ?thesis .
qed

lemma split_count:
  assumes "\<forall>i \<in> set is. i < length y"
  shows "length (filter (\<lambda>i. x ! i = y ! i) is) +
         length (filter (\<lambda>i. x ! i \<noteq> y ! i \<and> x ! i \<in> set y) is) =
         length (filter (\<lambda>i. x ! i \<in> set y) is)"
  using assms by (induction "is") auto

text \<open>Between two strings of four distinct characters the score is symmetric.\<close>

lemma count_ab_sym:
  assumes "length x = 4" "length y = 4" "distinct x" "distinct y"
  shows "count_ab x y = count_ab y x"
proof -
  let ?A = "\<lambda>x y. length (filter (\<lambda>i. x ! i = y ! i) [0..<4])"
  let ?B = "\<lambda>x y. length (filter (\<lambda>i. x ! i \<noteq> y ! i \<and> x ! i \<in> set y) [0..<4])"
  have a: "?A x y = ?A y x" by (rule arg_cong [where f = length], rule filter_cong) auto
  have "?A x y + ?B x y = card (set x \<inter> set y)"
    using split_count [of "[0..<4]" y x] common_count [OF assms(3), of "set y"] assms(1,2) by simp
  moreover have "?A y x + ?B y x = card (set y \<inter> set x)"
    using split_count [of "[0..<4]" x y] common_count [OF assms(4), of "set x"] assms(1,2) by simp
  ultimately have "?B x y = ?B y x" using a by (simp add: Int_commute)
  with a show ?thesis using assms(1,2) by (simp add: count_ab_filter)
qed

text \<open>
  Claim C5. For valid digit strings \<open>x\<close> and \<open>y\<close> the scorer returns counts \<open>(A, B)\<close> with
  \<open>A + B \<le> 4\<close>; \<open>A = 4\<close> only when \<open>x = y\<close>; and the score of \<open>x\<close> against itself is
  \<open>(4, 0)\<close>, the answer string \<open>4A0B\<close>.
\<close>

theorem answer_valid:
  assumes "is_valid_answer x" and "is_valid_answer y"
  shows "\<exists>a b. count_ab x y = Inr (a, b) \<and>
           answer y x = Inr (decimal a @ ''A'' @ decimal b @ ''B'') \<and>
           a + b \<le> 4 \<and> (a = 4 \<longrightarrow> x = y) \<and>
           count_ab x x = Inr (4, 0) \<and> answer x x = Inr ''4A0B''"
proof -
  from assms have len: "length x = 4" "length y = 4" by (simp_all add: is_valid_answer_iff)
  then obtain a b where ab: "count_ab x y = Inr (a, b)" "a + b \<le> 4"
    using count_ab_ge4 [of x y] by auto
  have "a = 4 \<longrightarrow> x = y" using len ab(1) by (auto dest: count_ab_all_equal)
  moreover have "count_ab x x = Inr (4, 0)" using len(1) by (rule count_ab_self)
  moreover have "answer x x = Inr ''4A0B''"
    using len(1) by (simp add: answer_def count_ab_self decimal_digit digit_char_values)
  moreover have "answer y x = Inr (decimal a @ ''A'' @ decimal b @ ''B'')"
    using ab(1) by (simp add: answer_def)
  ultimately show ?thesis using ab by blast
qed

theorem answer_valid_witness:
  "is_valid_answer ''0987'' \<and> is_valid_answer ''0987'' \<and>
   (\<exists>a b. count_ab ''0987'' ''0987'' = Inr (a, b) \<and>
      answer ''0987'' ''0987'' = Inr (decimal a @ ''A'' @ decimal b @ ''B'') \<and>
      a + b \<le> 4 \<and> a = 4 \<and> ''0987'' = ''0987'' \<and>
      count_ab ''0987'' ''0987'' = Inr (4, 0) \<and> answer ''0987'' ''0987'' = Inr ''4A0B'')"
proof -
  have v: "is_valid_answer ''0987''"
    by (simp add: is_valid_answer_iff isnumeric_char_def)
  from answer_valid [OF v v] v show ?thesis by auto
qed

subsection \<open>The candidate space\<close>

lemma length_decimal_lt:
  "n < 10 \<Longrightarrow> decimal n = [digit_char n]"
  "10 \<le> n \<Longrightarrow> n < 100 \<Longrightarrow> decimal n = [digit_char (n div 10), digit_char (n mod 10)]"
  "100 \<le> n \<Longrightarrow> n < 1000 \<Longrightarrow> decimal n = [digit_char (n div 100), digit_char (n div 10 mod 10), digit_char (n mod 10)]"
  "1000 \<le> n \<Longrightarrow> n < 10000 \<Longrightarrow> decimal n = [digit_char (n div 1000), digit_char (n div 100 mod 10), digit_char (n div 10 mod 10), digit_char (n mod 10)]"
proof -
  show 1: "n < 10 \<Longrightarrow> decimal n = [digit_char n]" for n by (simp add: decimal.simps)
  show 2: "10 \<le> n \<Longrightarrow> n < 100 \<Longrightarrow> decimal n = [digit_char (n div 10), digit_char (n mod 10)]" for n
    by (subst decimal.simps) (simp add: 1)
  show 3: "100 \<le> n \<Longrightarrow> n < 1000 \<Longrightarrow> decimal n = [digit_char (n div 100), digit_char (n div 10 mod 10), digit_char (n mod 10)]" for n
    by (subst decimal.simps) (simp add: 2 div_mult2_eq [symmetric])
  show "1000 \<le> n \<Longrightarrow> n < 10000 \<Longrightarrow> decimal n = [digit_char (n div 1000), digit_char (n div 100 mod 10), digit_char (n div 10 mod 10), digit_char (n mod 10)]"
    by (subst decimal.simps) (simp add: 3 div_mult2_eq [symmetric])
qed

lemma format_04d_digits:
  assumes "i < 10000"
  shows "format_04d i = [digit_char (i div 1000), digit_char (i div 100 mod 10),
                         digit_char (i div 10 mod 10), digit_char (i mod 10)]"
proof -
  consider "i < 10" | "10 \<le> i" "i < 100" | "100 \<le> i" "i < 1000" | "1000 \<le> i" "i < 10000"
    using assms by linarith
  then show ?thesis
  proof cases
    case 1
    then show ?thesis by (simp add: format_04d_def length_decimal_lt(1) digit_char_values numeral_3_eq_3 numeral_2_eq_2)
  next
    case 2
    then show ?thesis by (simp add: format_04d_def length_decimal_lt(2) digit_char_values numeral_3_eq_3 numeral_2_eq_2)
  next
    case 3
    then show ?thesis by (simp add: format_04d_def length_decimal_lt(3) digit_char_values)
  next
    case 4
    then show ?thesis by (simp add: format_04d_def length_decimal_lt(4))
  qed
qed


lemma digit_char_less: "a < 10 \<Longrightarrow> b < 10 \<Longrightarrow> digit_char a < digit_char b \<longleftrightarrow> a < b"
  by (simp add: less_char_def of_char_digit_char)

lemma digit_char_eq:
  assumes "a < 10" "b < 10"
  shows "digit_char a = digit_char b \<longleftrightarrow> a = b"
proof
  assume "digit_char a = digit_char b"
  then have "(of_char (digit_char a) :: nat) = of_char (digit_char b)" by (rule arg_cong)
  then have "48 + a = 48 + b"
    by (simp only: of_char_digit_char [OF assms(1)] of_char_digit_char [OF assms(2)])
  then show "a = b" by simp
next
  assume "a = b"
  then show "digit_char a = digit_char b" by simp
qed

lemma digits_chain:
  "(i::nat) = 10 * q1 + d \<Longrightarrow> q1 = 10 * q2 + c \<Longrightarrow> q2 = 10 * q3 + b \<Longrightarrow>
   i = 1000 * q3 + 100 * b + 10 * c + d"
  by simp

lemma digits_decomp:
  "(i::nat) = 1000 * (i div 1000) + 100 * (i div 100 mod 10) + 10 * (i div 10 mod 10) + i mod 10"
proof -
  have 1: "i = 10 * (i div 10) + i mod 10" by simp
  have "i div 10 = 10 * (i div 10 div 10) + i div 10 mod 10" by simp
  then have 2: "i div 10 = 10 * (i div 100) + i div 10 mod 10" by (simp add: div_mult2_eq [symmetric])
  have "i div 100 = 10 * (i div 100 div 10) + i div 100 mod 10" by simp
  then have 3: "i div 100 = 10 * (i div 1000) + i div 100 mod 10" by (simp add: div_mult2_eq [symmetric])
  from 1 2 3 show ?thesis by (rule digits_chain)
qed

lemma lex_digits:
  fixes a :: nat
  assumes "b < 10" "c < 10" "d < 10" "b' < 10" "c' < 10" "d' < 10"
    and "1000 * a + 100 * b + 10 * c + d < 1000 * a' + 100 * b' + 10 * c' + d'"
  shows "a < a' \<or> a = a' \<and> (b < b' \<or> b = b' \<and> (c < c' \<or> c = c' \<and> d < d'))"
  using assms by linarith

lemma digits_of_sum:
  fixes da :: nat
  assumes "da < 10" "db < 10" "dc < 10" "dd < 10"
  shows "(1000 * da + 100 * db + 10 * dc + dd) div 1000 = da"
    and "(1000 * da + 100 * db + 10 * dc + dd) div 100 mod 10 = db"
    and "(1000 * da + 100 * db + 10 * dc + dd) div 10 mod 10 = dc"
    and "(1000 * da + 100 * db + 10 * dc + dd) mod 10 = dd"
proof -
  show "(1000 * da + 100 * db + 10 * dc + dd) div 1000 = da"
    using assms by (intro div_nat_eqI) simp_all
  have "(1000 * da + 100 * db + 10 * dc + dd) div 100 = 10 * da + db"
    using assms by (intro div_nat_eqI) simp_all
  then show "(1000 * da + 100 * db + 10 * dc + dd) div 100 mod 10 = db"
    using assms by simp
  have "(1000 * da + 100 * db + 10 * dc + dd) div 10 = 100 * da + 10 * db + dc"
    using assms by (intro div_nat_eqI) simp_all
  moreover have "(10 * (10 * da + db) + dc) mod 10 = dc" using assms by (simp del: distrib_left_numeral)
  ultimately show "(1000 * da + 100 * db + 10 * dc + dd) div 10 mod 10 = dc"
    by simp
  have "(10 * (100 * da + 10 * db + dc) + dd) mod 10 = dd" using assms by (simp del: distrib_left_numeral)
  then show "(1000 * da + 100 * db + 10 * dc + dd) mod 10 = dd" by simp
qed

lemma format_04d_less:
  assumes "i < j" "j < 10000"
  shows "format_04d i < format_04d j"
proof -
  have b: "i div 1000 < 10" "j div 1000 < 10" using assms by simp_all
  have "1000 * (i div 1000) + 100 * (i div 100 mod 10) + 10 * (i div 10 mod 10) + i mod 10
      < 1000 * (j div 1000) + 100 * (j div 100 mod 10) + 10 * (j div 10 mod 10) + j mod 10"
    using assms(1) by (simp only: digits_decomp [symmetric])
  then have "i div 1000 < j div 1000 \<or>
        i div 1000 = j div 1000 \<and> (i div 100 mod 10 < j div 100 mod 10 \<or>
        i div 100 mod 10 = j div 100 mod 10 \<and> (i div 10 mod 10 < j div 10 mod 10 \<or>
        i div 10 mod 10 = j div 10 mod 10 \<and> i mod 10 < j mod 10))"
    by (intro lex_digits) simp_all
  then show ?thesis using assms b
    by (simp add: format_04d_digits digit_char_less digit_char_eq)
qed

lemma sorted_wrt_formats: "sorted_wrt (<) (map format_04d [0..<10000])"
proof -
  have "sorted_wrt (\<lambda>i j. format_04d i < format_04d j) [0..<10000]"
    by (rule sorted_wrt_mono_rel [of _ "(<)"]) (auto intro: format_04d_less)
  then show ?thesis by (simp add: sorted_wrt_map)
qed

lemma number_list_eq: "number_list = filter is_valid_answer (map format_04d [0..<10000])"
proof -
  have "sorted_wrt (<) (filter is_valid_answer (map format_04d [0..<10000]))"
    using sorted_wrt_formats by (rule sorted_wrt_filter)
  then have "sorted (filter is_valid_answer (map format_04d [0..<10000]))"
    "distinct (filter is_valid_answer (map format_04d [0..<10000]))"
    by (simp_all only: strict_sorted_iff)
  then show ?thesis unfolding number_list_def numbers_def
    by (intro sorted_distinct_set_unique) simp_all
qed

lemma digit_chars_image: "digit_chars = digit_char ` {..<10}"
proof (intro set_eqI iffI)
  fix c assume "c \<in> digit_chars"
  then have r: "48 \<le> (of_char c :: nat)" "(of_char c :: nat) \<le> 57"
    by (simp_all add: digit_chars_def less_eq_char_def)
  then have "digit_char (of_char c - 48) = c" by (simp add: digit_char_def)
  moreover have "(of_char c :: nat) - 48 < 10" using r by simp
  ultimately show "c \<in> digit_char ` {..<10}" by (metis imageI lessThan_iff)
next
  fix c assume "c \<in> digit_char ` {..<10}"
  then show "c \<in> digit_chars"
    by (auto simp: digit_chars_def less_eq_char_def of_char_digit_char)
qed

lemma card_digit_chars: "card digit_chars = 10"
proof -
  have "inj_on digit_char {..<10}" by (rule inj_onI) (simp add: digit_char_eq)
  then show ?thesis by (simp add: digit_chars_image card_image)
qed

lemma isnumeric_digit: "c \<in> digit_chars \<Longrightarrow> isnumeric_char c"
  by (simp add: digit_chars_def isnumeric_char_def less_eq_char_def)

lemma numbers_eq: "numbers = {xs. length xs = 4 \<and> distinct xs \<and> set xs \<subseteq> digit_chars}"
proof (intro set_eqI iffI)
  fix x assume "x \<in> numbers"
  then obtain i where i: "i < 10000" "x = format_04d i" "is_valid_answer x"
    by (auto simp: numbers_def)
  have "set (format_04d i) \<subseteq> digit_chars"
    using i(1) by (simp add: format_04d_digits digit_chars_image)
  then show "x \<in> {xs. length xs = 4 \<and> distinct xs \<and> set xs \<subseteq> digit_chars}"
    using i by (simp add: is_valid_answer_iff)
next
  fix x assume "x \<in> {xs. length xs = 4 \<and> distinct xs \<and> set xs \<subseteq> digit_chars}"
  then have x: "length x = 4" "distinct x" "set x \<subseteq> digit_chars" by simp_all
  from x(1) obtain a b c d where abcd: "x = [a, b, c, d]" by (rule length_4_obtain)
  with x(3) obtain da db dc dd where
    d: "da < 10" "db < 10" "dc < 10" "dd < 10"
      "a = digit_char da" "b = digit_char db" "c = digit_char dc" "d = digit_char dd"
    by (auto simp: digit_chars_image)
  let ?i = "1000 * da + 100 * db + 10 * dc + dd"
  have lt: "?i < 10000" using d(1-4) by simp
  have "?i div 1000 = da" "?i div 100 mod 10 = db" "?i div 10 mod 10 = dc" "?i mod 10 = dd"
    using d(1-4) by (simp_all only: digits_of_sum)
  then have f: "format_04d ?i = x" using lt abcd d(5-8) by (simp add: format_04d_digits)
  have "is_valid_answer x"
    using x by (auto simp: is_valid_answer_iff list_all_iff intro: isnumeric_digit)
  then have "is_valid_answer (format_04d ?i)" using f by simp
  then have "format_04d ?i \<in> numbers" unfolding numbers_def using lt by simp
  then show "x \<in> numbers" using f by simp
qed

lemma card_numbers: "card numbers = 5040"
proof -
  have "card numbers = \<Prod>{card digit_chars - 4 + 1 .. card digit_chars}"
    unfolding numbers_eq by (rule card_lists_distinct_length_eq') (simp add: card_digit_chars)
  also have "\<dots> = \<Prod>{7..10::nat}" by (simp add: card_digit_chars)
  also have "{7..10::nat} = {7, 8, 9, 10}" by auto
  finally show ?thesis by simp
qed

lemma length_number_list: "length number_list = 5040"
  by (simp add: number_list_def card_numbers)


lemma distinct_number_list: "distinct number_list"
  by (simp add: number_list_def)

lemma set_number_list: "set number_list = numbers"
  by (simp add: number_list_def numbers_def)

lemma number_list_length_4: "x \<in> set number_list \<Longrightarrow> length x = 4"
  by (simp add: set_number_list numbers_eq)

lemma first_number_mem: "''0123'' \<in> numbers"
  by (simp add: numbers_eq digit_chars_def)

lemma char_eq_digit_char:
  assumes "d < 10"
  shows "c = digit_char d \<longleftrightarrow> (of_char c :: nat) = 48 + d"
proof
  assume "c = digit_char d"
  then show "(of_char c :: nat) = 48 + d" using assms by (simp add: of_char_digit_char)
next
  assume "(of_char c :: nat) = 48 + d"
  then have "(of_char c :: nat) = of_char (digit_char d)"
    by (simp only: of_char_digit_char [OF assms])
  then show "c = digit_char d" by (rule of_char_eqI)
qed

lemma first_number_least:
  assumes "x \<in> numbers"
  shows "''0123'' \<le> x"
proof -
  from assms have x: "length x = 4" "distinct x" "set x \<subseteq> digit_chars"
    by (simp_all add: numbers_eq)
  from x(1) obtain a b c d where abcd: "x = [a, b, c, d]" by (rule length_4_obtain)
  with x(3) obtain da db dc dd where
    d: "da < 10" "db < 10" "dc < 10" "dd < 10"
      "a = digit_char da" "b = digit_char db" "c = digit_char dc" "d = digit_char dd"
    by (auto simp: digit_chars_image)
  from x(2) have ne: "da \<noteq> db" "da \<noteq> dc" "da \<noteq> dd" "db \<noteq> dc" "db \<noteq> dd" "dc \<noteq> dd"
    unfolding abcd d(5-8) by auto
  have "0 < da \<or> 0 = da \<and> (1 < db \<or> 1 = db \<and> (2 < dc \<or> 2 = dc \<and> (3 < dd \<or> 3 = dd)))"
    using ne by linarith
  then show ?thesis unfolding abcd d(5-8)
    using d(1-4) by (simp add: less_char_def of_char_digit_char char_eq_digit_char) linarith
qed

lemma hd_number_list: "hd number_list = ''0123''"
proof -
  have mem: "''0123'' \<in> set number_list" using first_number_mem set_number_list by simp
  then obtain a l where nl: "number_list = a # l" by (cases number_list) auto
  have "a \<in> set number_list" unfolding nl by simp
  then have "a \<in> numbers" by (simp only: set_number_list)
  then have 1: "''0123'' \<le> a" by (rule first_number_least)
  have "sorted number_list" by (simp add: number_list_def)
  then have "sorted (a # l)" unfolding nl .
  then have "\<forall>y \<in> set (a # l). a \<le> y" by auto
  moreover have "''0123'' \<in> set (a # l)" using mem unfolding nl .
  ultimately have "a \<le> ''0123''" by blast
  with 1 have "a = ''0123''" by simp
  then show ?thesis unfolding nl by simp
qed

text \<open>
  Claim C7. The candidate space built by the constructor has exactly 5040 members; they
  are exactly the strings of four pairwise distinct digits \<open>0\<close> to \<open>9\<close>, and each satisfies
  the validity predicate. The list the minimax scan iterates is sorted lexicographically,
  and it is the list of the valid strings among \<open>0000\<close> to \<open>9999\<close> in ascending numeric
  order. The record set of a new engine is this list.
\<close>

theorem candidate_space:
  "length number_list = 5040 \<and> card numbers = 5040 \<and> set number_list = numbers \<and>
   distinct number_list \<and>
   numbers = {x. length x = 4 \<and> distinct x \<and> (\<forall>c \<in> set x. CHR ''0'' \<le> c \<and> c \<le> CHR ''9'')} \<and>
   (\<forall>x \<in> numbers. is_valid_answer x) \<and>
   sorted number_list \<and>
   number_list = filter is_valid_answer (map format_04d [0..<10000]) \<and>
   records GuessNumberAI_new = number_list"
proof -
  have "numbers = {x. length x = 4 \<and> distinct x \<and> (\<forall>c \<in> set x. CHR ''0'' \<le> c \<and> c \<le> CHR ''9'')}"
    unfolding numbers_eq digit_chars_def by auto
  moreover have "\<forall>x \<in> numbers. is_valid_answer x" by (auto simp: numbers_def)
  moreover have "sorted number_list" by (simp add: number_list_def)
  moreover have "records GuessNumberAI_new = number_list"
    by (simp add: GuessNumberAI_new_def initialize_def number_list_def)
  ultimately show ?thesis
    using length_number_list card_numbers set_number_list distinct_number_list number_list_eq
    by blast
qed

theorem candidate_space_witness:
  "''0987'' \<in> numbers \<and> is_valid_answer ''0987'' \<and> length number_list = 5040"
proof -
  have "length ''0987'' = 4 \<and> distinct ''0987'' \<and> (\<forall>c \<in> set ''0987''. CHR ''0'' \<le> c \<and> c \<le> CHR ''9'')"
    by simp
  with candidate_space have "''0987'' \<in> numbers" by blast
  with candidate_space show ?thesis by blast
qed

subsection \<open>Filtering the record set\<close>

lemma to_delete_loop_eq:
  assumes "\<forall>k \<in> set keys. 4 \<le> length k" "4 \<le> length (previous s)"
  shows "to_delete_loop s a b keys =
         Inr (filter (\<lambda>key. count_ab key (previous s) \<noteq> Inr (a, b)) keys)"
  using assms
proof (induction keys)
  case Nil
  then show ?case by simp
next
  case (Cons key keys)
  then obtain ca cb where "count_ab key (previous s) = Inr (ca, cb)"
    using count_ab_ge4 [of key "previous s"] by auto
  with Cons show ?case by (auto simp: check_result_def)
qed

lemma remove_loop_eq:
  assumes "set ds \<subseteq> set recs" "distinct ds"
  shows "remove_loop recs ds = Inr (filter (\<lambda>k. k \<notin> set ds) recs)"
  using assms
proof (induction ds arbitrary: recs)
  case Nil
  then show ?case by simp
next
  case (Cons d ds)
  from Cons.prems have "set ds \<subseteq> set (removeAll d recs)" "distinct ds" by auto
  then have "remove_loop (removeAll d recs) ds = Inr (filter (\<lambda>k. k \<notin> set ds) (removeAll d recs))"
    by (rule Cons.IH)
  moreover have "filter (\<lambda>k. k \<notin> set ds) (removeAll d recs) = filter (\<lambda>k. k \<notin> set (d # ds)) recs"
    by (induction recs) auto
  ultimately show ?case using Cons.prems by simp
qed

lemma filter_record_eq:
  assumes "distinct (records s)" "\<forall>k \<in> set (records s). 4 \<le> length k" "4 \<le> length (previous s)"
  shows "filter_record s a b =
         Inr (s\<lparr>records := filter (\<lambda>key. count_ab key (previous s) = Inr (a, b)) (records s)\<rparr>)"
proof -
  let ?ds = "filter (\<lambda>key. count_ab key (previous s) \<noteq> Inr (a, b)) (records s)"
  have td: "to_delete_loop s a b (records s) = Inr ?ds"
    using assms(2,3) by (rule to_delete_loop_eq)
  have "remove_loop (records s) ?ds = Inr (filter (\<lambda>k. k \<notin> set ?ds) (records s))"
    using assms(1) by (intro remove_loop_eq) auto
  moreover have "filter (\<lambda>k. k \<notin> set ?ds) (records s) =
                 filter (\<lambda>key. count_ab key (previous s) = Inr (a, b)) (records s)"
    by (rule filter_cong) auto
  ultimately show ?thesis using td by (simp add: filter_record_def)
qed

lemma filter_record_frame:
  "filter_record s a b = Inr s1 \<Longrightarrow> s1 = s\<lparr>records := records s1\<rparr>"
  by (auto simp: filter_record_def split: sum.splits)

text \<open>
  The feedback the checker computes for a guess against the secret, parsed back by
  \<open>guess\<close>, is the pair the filter computes for the secret against that guess.
\<close>

lemma secret_kept:
  assumes "is_valid_answer secret" "is_valid_answer guessed"
    and "answer secret guessed = Inr r" "parse_result r = Inr (a, b)"
  shows "count_ab secret guessed = Inr (a, b)"
proof -
  from assms(1,2) have v: "length secret = 4" "length guessed = 4" "distinct secret" "distinct guessed"
    by (simp_all add: is_valid_answer_iff)
  then obtain ca cb where c: "count_ab guessed secret = Inr (ca, cb)" "ca + cb \<le> 4"
    using count_ab_ge4 [of guessed secret] by auto
  then have "r = decimal ca @ ''A'' @ decimal cb @ ''B''" using assms(3) by (simp add: answer_def)
  moreover have "ca < 10" "cb < 10" using c(2) by simp_all
  ultimately have "parse_result r = Inr (ca, cb)" using parse_result_answer [of ca cb] by simp
  with assms(4) have "ca = a" "cb = b" by simp_all
  with c(1) show ?thesis using count_ab_sym [OF v(1,2,3,4)] by simp
qed

text \<open>
  Claim C4. For a record set of strings of length at least 4 and a previous guess of length
  at least 4, filtering with the feedback \<open>(a, b)\<close> returns normally, changes only the
  record set, and removes exactly the members whose score against the previous guess
  differs from \<open>(a, b)\<close>. So the record set does not grow, every member consistent with
  the feedback stays, and in particular the true secret stays when the feedback is the
  checker's answer for the previous guess.
\<close>

theorem filter_record_exact:
  assumes "distinct (records s)" and "\<forall>key \<in> set (records s). 4 \<le> length key"
    and "4 \<le> length (previous s)"
  shows "\<exists>s'. filter_record s a b = Inr s' \<and> s' = s\<lparr>records := records s'\<rparr> \<and>
           records s' = filter (\<lambda>key. count_ab key (previous s) = Inr (a, b)) (records s) \<and>
           set (records s) - set (records s') =
             {key \<in> set (records s). count_ab key (previous s) \<noteq> Inr (a, b)} \<and>
           length (records s') \<le> length (records s) \<and>
           set (records s') \<subseteq> set (records s) \<and>
           (\<forall>key \<in> set (records s). count_ab key (previous s) = Inr (a, b) \<longrightarrow> key \<in> set (records s')) \<and>
           (\<forall>secret \<in> set (records s). \<forall>r. is_valid_answer secret \<and> is_valid_answer (previous s) \<and>
               answer secret (previous s) = Inr r \<and> parse_result r = Inr (a, b) \<longrightarrow>
               secret \<in> set (records s'))"
proof -
  let ?s' = "s\<lparr>records := filter (\<lambda>key. count_ab key (previous s) = Inr (a, b)) (records s)\<rparr>"
  have f: "filter_record s a b = Inr ?s'" using assms by (rule filter_record_eq)
  have "\<forall>secret \<in> set (records s). \<forall>r. is_valid_answer secret \<and> is_valid_answer (previous s) \<and>
               answer secret (previous s) = Inr r \<and> parse_result r = Inr (a, b) \<longrightarrow>
               secret \<in> set (records ?s')"
    by (auto dest: secret_kept)
  moreover have "set (records s) - set (records ?s') =
             {key \<in> set (records s). count_ab key (previous s) \<noteq> Inr (a, b)}" by auto
  ultimately show ?thesis using f by (intro exI [of _ ?s']) simp
qed

theorem filter_record_exact_witness:
  "distinct [''0123'', ''1234'', ''4567''] \<and>
   list_all (\<lambda>key. 4 \<le> length key) [''0123'', ''1234'', ''4567''] \<and>
   4 \<le> length ''0123'' \<and> is_valid_answer ''1234'' \<and> is_valid_answer ''0123'' \<and>
   answer ''1234'' ''0123'' = Inr ''0A3B'' \<and> parse_result ''0A3B'' = Inr (0, 3) \<and>
   filter_record \<lparr>previous = ''0123'', log = [], records = [''0123'', ''1234'', ''4567''], tree = GuessNumberTree_new\<rparr> 0 3 =
     Inr \<lparr>previous = ''0123'', log = [], records = [''1234''], tree = GuessNumberTree_new\<rparr>"
proof -
  let ?s = "\<lparr>previous = ''0123'', log = [], records = [''0123'', ''1234'', ''4567''], tree = GuessNumberTree_new\<rparr>"
  have h: "distinct (records ?s)" "\<forall>key \<in> set (records ?s). 4 \<le> length key" "4 \<le> length (previous ?s)"
    by simp_all
  have c: "count_ab ''1234'' ''0123'' = Inr (0, 3)" "count_ab ''0123'' ''0123'' = Inr (4, 0)"
     "count_ab ''4567'' ''0123'' = Inr (0, 0)" "count_ab ''0123'' ''1234'' = Inr (0, 3)"
    by (simp_all add: count_ab_def upt_0_4)
  have v: "is_valid_answer ''1234''" "is_valid_answer ''0123''"
    by (simp_all add: is_valid_answer_iff isnumeric_char_def)
  have a: "answer ''1234'' ''0123'' = Inr ''0A3B''"
    by (simp add: answer_def c decimal_digit digit_char_values)
  have p: "parse_result ''0A3B'' = Inr (0, 3)"
    using parse_result_answer [of 0 3] by (simp add: decimal_digit digit_char_values)
  from filter_record_exact [OF h, of 0 3] obtain s' where
    "filter_record ?s 0 3 = Inr s'" "s' = ?s\<lparr>records := records s'\<rparr>"
    "records s' = filter (\<lambda>key. count_ab key (previous ?s) = Inr (0, 3)) (records ?s)"
    by blast
  then have "filter_record ?s 0 3 = Inr (?s\<lparr>records := [''1234'']\<rparr>)" by (simp add: c)
  then show ?thesis using v a p by simp
qed

subsection \<open>Initialisation\<close>

text \<open>
  Claim C9. \<open>initialize\<close> sets the record set to the full candidate space and empties
  the history log (it also clears the stored previous guess); the decision cache is
  unchanged, so a lookup along any history returns after \<open>initialize\<close> what it returned
  before.
\<close>

theorem initialize_frame:
  "records (initialize s) = number_list \<and> set (records (initialize s)) = numbers \<and>
   log (initialize s) = [] \<and> previous (initialize s) = [] \<and> tree (initialize s) = tree s \<and>
   (\<forall>l a b. search_tree ((initialize s)\<lparr>log := l\<rparr>) a b = search_tree (s\<lparr>log := l\<rparr>) a b)"
  by (simp add: initialize_def number_list_def numbers_def search_tree_def)

subsection \<open>The single-record shortcut\<close>

text \<open>
  Claim C10. When filtering leaves exactly one member, \<open>guess\<close> returns that member and
  the state it leaves differs from the state before the call in the record set only: the
  history log, the stored previous guess and the decision cache are as they were. A
  following call therefore checks the records against the same previous guess and looks
  the cache up along the same history.
\<close>

theorem single_record_shortcut:
  assumes "parse_result r = Inr (a, b)" and "filter_record s a b = Inr s1" and "records s1 = [m]"
  shows "guess s (Some r) = Inr (m, s\<lparr>records := [m]\<rparr>) \<and>
         guess_traced s (Some r) = Inr (m, Single, s\<lparr>records := [m]\<rparr>) \<and>
         previous (s\<lparr>records := [m]\<rparr>) = previous s \<and> log (s\<lparr>records := [m]\<rparr>) = log s \<and>
         tree (s\<lparr>records := [m]\<rparr>) = tree s \<and>
         (\<forall>key a' b'. check_result (s\<lparr>records := [m]\<rparr>) key a' b' = check_result s key a' b' \<and>
            search_tree (s\<lparr>records := [m]\<rparr>) a' b' = search_tree s a' b')"
proof -
  have "s1 = s\<lparr>records := [m]\<rparr>" using filter_record_frame [OF assms(2)] assms(3) by simp
  then show ?thesis using assms
    by (simp add: guess_def guess_traced_def check_result_def search_tree_def)
qed

theorem single_record_shortcut_witness:
  "parse_result ''0A3B'' = Inr (0, 3) \<and>
   filter_record \<lparr>previous = ''0123'', log = [], records = [''0123'', ''1234'', ''4567''], tree = GuessNumberTree_new\<rparr> 0 3 =
     Inr \<lparr>previous = ''0123'', log = [], records = [''1234''], tree = GuessNumberTree_new\<rparr> \<and>
   guess \<lparr>previous = ''0123'', log = [], records = [''0123'', ''1234'', ''4567''], tree = GuessNumberTree_new\<rparr> (Some ''0A3B'') =
     Inr (''1234'', \<lparr>previous = ''0123'', log = [], records = [''1234''], tree = GuessNumberTree_new\<rparr>)"
proof -
  let ?s = "\<lparr>previous = ''0123'', log = [], records = [''0123'', ''1234'', ''4567''], tree = GuessNumberTree_new\<rparr>"
  let ?s1 = "\<lparr>previous = ''0123'', log = [], records = [''1234''], tree = GuessNumberTree_new\<rparr>"
  have p: "parse_result ''0A3B'' = Inr (0, 3)"
    using parse_result_answer [of 0 3] by (simp add: decimal_digit digit_char_values)
  have c: "count_ab ''1234'' ''0123'' = Inr (0, 3)" "count_ab ''0123'' ''0123'' = Inr (4, 0)"
     "count_ab ''4567'' ''0123'' = Inr (0, 0)"
    by (simp_all add: count_ab_def upt_0_4)
  have f: "filter_record ?s 0 3 = Inr ?s1"
    by (subst filter_record_eq) (simp_all add: c)
  have r: "records ?s1 = [''1234'']" by simp
  from single_record_shortcut [OF p f r] p f show ?thesis by simp
qed

subsection \<open>The decision cache lookup\<close>

lemma strict_walk_append:
  "strict_walk t (xs @ ys) = (case strict_walk t xs of None \<Rightarrow> None | Some n \<Rightarrow> strict_walk n ys)"
  by (induction xs arbitrary: t) (auto split: option.splits)

lemma walk_strict:
  "strict_walk t keys = Some n \<Longrightarrow> walk t keys = Inr n"
  by (induction keys arbitrary: t) (auto split: option.splits if_splits)

lemma search_tree_present:
  assumes "strict_walk (root (tree s)) (log s) = Some n"
  shows "search_tree s a b =
         (if a * 5 + b < length (node_next n)
          then Inr (case spec_lookup (root (tree s)) (log s @ [(a, b)]) of None \<Rightarrow> [] | Some g \<Rightarrow> g)
          else Inl IndexError)"
  using assms walk_strict [OF assms]
  by (auto simp: search_tree_def spec_lookup_def strict_walk_append split: option.splits)

text \<open>
  The loop of the source does not stop at an absent child: it stays at the current node
  and goes on with the remaining pairs of the log.
\<close>

lemma walk_skips_absent:
  assumes "fst key * 5 + snd key < length (node_next t)"
    and "node_next t ! (fst key * 5 + snd key) = None"
  shows "walk t (key # keys) = walk t keys"
  using assms by simp

subsection \<open>The minimax selector\<close>

lemma slot_lt: "4 \<le> length g \<Longrightarrow> 4 \<le> length key \<Longrightarrow> slot g key < 25"
  using count_ab_ge4 [of g key] by (auto simp: slot_def)

lemma score_loop_counts:
  assumes "\<forall>key \<in> set keys. 4 \<le> length key" "4 \<le> length g" "length result = 25"
  shows "score_loop g keys result =
         Inr (map (\<lambda>i. result ! i + length (filter (\<lambda>key. slot g key = i) keys)) [0..<25])"
  using assms
proof (induction keys arbitrary: result)
  case Nil
  then show ?case by (auto intro: nth_equalityI)
next
  case (Cons key keys)
  then obtain a b where ab: "count_ab g key = Inr (a, b)" "a + b \<le> 4"
    using count_ab_ge4 [of g key] by auto
  then have sl: "slot g key = a * 5 + b" "a * 5 + b < 25" by (simp_all add: slot_def)
  let ?r = "result[a * 5 + b := result ! (a * 5 + b) + 1]"
  have "score_loop g keys ?r =
         Inr (map (\<lambda>i. ?r ! i + length (filter (\<lambda>key. slot g key = i) keys)) [0..<25])"
    using Cons.prems by (intro Cons.IH) simp_all
  moreover have "map (\<lambda>i. ?r ! i + length (filter (\<lambda>key. slot g key = i) keys)) [0..<25] =
        map (\<lambda>i. result ! i + length (filter (\<lambda>key. slot g key = i) (key # keys))) [0..<25]"
    using Cons.prems(3) sl by (auto simp: nth_list_update)
  ultimately show ?case using ab sl Cons.prems(3) by simp
qed

lemma slot_inj:
  fixes a :: nat
  assumes "a' + b' \<le> 4" "a < 5" "b < 5" "a' * 5 + b' = a * 5 + b"
  shows "a' = a \<and> b' = b"
proof -
  have "b' < 5" using assms(1) by simp
  have "(a' * 5 + b') div 5 = a'" using \<open>b' < 5\<close> by simp
  moreover have "(a * 5 + b) div 5 = a" using assms(3) by simp
  ultimately have "a' = a" using assms(4) by simp
  then show ?thesis using assms(4) by simp
qed

lemma slot_bucket:
  assumes "4 \<le> length g" "4 \<le> length key" "a < 5" "b < 5"
  shows "slot g key = a * 5 + b \<longleftrightarrow> count_ab g key = Inr (a, b)"
proof -
  obtain a' b' where ab: "count_ab g key = Inr (a', b')" "a' + b' \<le> 4"
    using count_ab_ge4 [OF assms(1,2)] by auto
  have "a' * 5 + b' = a * 5 + b \<longleftrightarrow> a' = a \<and> b' = b"
    using slot_inj [OF ab(2) assms(3,4)] by blast
  then show ?thesis using ab by (simp add: slot_def)
qed

lemma pairs_image: "(\<lambda>(a, b). a * 5 + b) ` ({0..<5} \<times> {0..<5}) = {0..<25::nat}"
proof (intro set_eqI iffI)
  fix i :: nat assume "i \<in> {0..<25}"
  then have "i = (\<lambda>(a, b). a * 5 + b) (i div 5, i mod 5)" "i div 5 < 5" "i mod 5 < 5" by auto
  then show "i \<in> (\<lambda>(a, b). a * 5 + b) ` ({0..<5} \<times> {0..<5})"
    by (metis (no_types, lifting) SigmaI atLeastLessThan_iff image_eqI zero_le)
qed auto

lemma calculate_score_eq:
  assumes "distinct (records s)" "\<forall>key \<in> set (records s). 4 \<le> length key" "4 \<le> length g"
  shows "calculate_score s g = Inr (largest_bucket (records s) g)"
proof -
  let ?f = "\<lambda>i. length (filter (\<lambda>key. slot g key = i) (records s))"
  have "score_loop g (records s) (replicate 25 0) =
        Inr (map (\<lambda>i. replicate 25 0 ! i + ?f i) [0..<25])"
    using assms(2,3) by (intro score_loop_counts) simp_all
  also have "map (\<lambda>i. replicate 25 0 ! i + ?f i) [0..<25] = map ?f [0..<25]" by simp
  finally have 1: "calculate_score s g = Inr (Max (?f ` {0..<25}))"
    by (simp add: calculate_score_def)
  have "card (bucket (records s) g (a, b)) = ?f (a * 5 + b)" if "a < 5" "b < 5" for a b
  proof -
    have "filter (\<lambda>key. slot g key = a * 5 + b) (records s) =
          filter (\<lambda>key. count_ab g key = Inr (a, b)) (records s)"
      using assms(2,3) that by (intro filter_cong) (auto simp: slot_bucket)
    moreover have "bucket (records s) g (a, b) = set (filter (\<lambda>key. count_ab g key = Inr (a, b)) (records s))"
      by (auto simp: bucket_def)
    moreover have "card (set (filter (\<lambda>key. count_ab g key = Inr (a, b)) (records s))) =
        length (filter (\<lambda>key. count_ab g key = Inr (a, b)) (records s))"
      using assms(1) by (intro distinct_card) simp
    ultimately show ?thesis by (simp only:)
  qed
  then have "(\<lambda>ab. card (bucket (records s) g ab)) ` ({0..<5} \<times> {0..<5}) =
        (?f \<circ> (\<lambda>(a, b). a * 5 + b)) ` ({0..<5} \<times> {0..<5})"
    by (intro image_cong) auto
  also have "\<dots> = ?f ` {0..<25}" by (simp only: image_comp [symmetric] pairs_image)
  finally show ?thesis using 1 by (simp add: largest_bucket_def)
qed


lemma scan_first_minimum:
  assumes "\<forall>key \<in> set keys. calculate_score s key = Inr (w key)"
  shows "\<exists>c' v'. scan s keys (c, v) = Inr (c', v') \<and>
           ((c', v') = (c, v) \<and> (\<forall>k \<in> set keys. v \<le> w k) \<or>
            (\<exists>pre post. keys = pre @ c' # post \<and> v' = w c' \<and> w c' < v \<and>
               (\<forall>k \<in> set pre. w c' < w k) \<and> (\<forall>k \<in> set post. w c' \<le> w k)))"
  using assms
proof (induction keys arbitrary: c v)
  case Nil
  then show ?case by simp
next
  case (Cons key keys)
  have sc: "calculate_score s key = Inr (w key)" using Cons.prems by simp
  have rest: "\<forall>k \<in> set keys. calculate_score s k = Inr (w k)" using Cons.prems by simp
  show ?case
  proof (cases "w key < v")
    case True
    from Cons.IH [OF rest, of key "w key"] obtain c' v' where
      r: "scan s keys (key, w key) = Inr (c', v')" and
      d: "(c', v') = (key, w key) \<and> (\<forall>k \<in> set keys. w key \<le> w k) \<or>
          (\<exists>pre post. keys = pre @ c' # post \<and> v' = w c' \<and> w c' < w key \<and>
             (\<forall>k \<in> set pre. w c' < w k) \<and> (\<forall>k \<in> set post. w c' \<le> w k))"
      by blast
    have run: "scan s (key # keys) (c, v) = Inr (c', v')" using sc True r by simp
    from d show ?thesis
    proof
      assume a: "(c', v') = (key, w key) \<and> (\<forall>k \<in> set keys. w key \<le> w k)"
      then have "key # keys = [] @ c' # keys \<and> v' = w c' \<and> w c' < v \<and>
                 (\<forall>k \<in> set []. w c' < w k) \<and> (\<forall>k \<in> set keys. w c' \<le> w k)"
        using True by simp
      then show ?thesis using run by blast
    next
      assume "\<exists>pre post. keys = pre @ c' # post \<and> v' = w c' \<and> w c' < w key \<and>
             (\<forall>k \<in> set pre. w c' < w k) \<and> (\<forall>k \<in> set post. w c' \<le> w k)"
      then obtain pre post where p: "keys = pre @ c' # post" "v' = w c'" "w c' < w key"
        "\<forall>k \<in> set pre. w c' < w k" "\<forall>k \<in> set post. w c' \<le> w k" by blast
      then have "key # keys = (key # pre) @ c' # post \<and> v' = w c' \<and> w c' < v \<and>
                 (\<forall>k \<in> set (key # pre). w c' < w k) \<and> (\<forall>k \<in> set post. w c' \<le> w k)"
        using True by simp
      then show ?thesis using run by blast
    qed
  next
    case False
    from Cons.IH [OF rest, of c v] obtain c' v' where
      r: "scan s keys (c, v) = Inr (c', v')" and
      d: "(c', v') = (c, v) \<and> (\<forall>k \<in> set keys. v \<le> w k) \<or>
          (\<exists>pre post. keys = pre @ c' # post \<and> v' = w c' \<and> w c' < v \<and>
             (\<forall>k \<in> set pre. w c' < w k) \<and> (\<forall>k \<in> set post. w c' \<le> w k))"
      by blast
    have run: "scan s (key # keys) (c, v) = Inr (c', v')" using sc False r by simp
    from d show ?thesis
    proof
      assume "(c', v') = (c, v) \<and> (\<forall>k \<in> set keys. v \<le> w k)"
      then have "(c', v') = (c, v) \<and> (\<forall>k \<in> set (key # keys). v \<le> w k)" using False by simp
      then show ?thesis using run by blast
    next
      assume "\<exists>pre post. keys = pre @ c' # post \<and> v' = w c' \<and> w c' < v \<and>
             (\<forall>k \<in> set pre. w c' < w k) \<and> (\<forall>k \<in> set post. w c' \<le> w k)"
      then obtain pre post where p: "keys = pre @ c' # post" "v' = w c'" "w c' < v"
        "\<forall>k \<in> set pre. w c' < w k" "\<forall>k \<in> set post. w c' \<le> w k" by blast
      then have "key # keys = (key # pre) @ c' # post \<and> v' = w c' \<and> w c' < v \<and>
                 (\<forall>k \<in> set (key # pre). w c' < w k) \<and> (\<forall>k \<in> set post. w c' \<le> w k)"
        using False by simp
      then show ?thesis using run by blast
    qed
  qed
qed

lemma largest_bucket_le: "largest_bucket recs g \<le> length recs"
proof -
  have "card (bucket recs g ab) \<le> length recs" for ab
  proof -
    have "card (bucket recs g ab) \<le> card (set recs)"
      by (rule card_mono) (auto simp: bucket_def)
    also have "\<dots> \<le> length recs" by (rule card_length)
    finally show ?thesis .
  qed
  then show ?thesis unfolding largest_bucket_def by (intro Max.boundedI) auto
qed

lemma records_bound:
  assumes "distinct recs" "set recs \<subseteq> numbers"
  shows "length recs \<le> 5040"
proof -
  have "finite numbers" by (simp add: numbers_def)
  then have "card (set recs) \<le> card numbers" using assms(2) by (rule card_mono)
  then show ?thesis using assms(1) by (simp add: distinct_card card_numbers)
qed

lemma update_node_succeeds:
  assumes "walk t keys = Inr n" "a * 5 + b < length (node_next n)"
  shows "\<exists>t'. update_node t keys g a b = Inr t'"
  using assms
proof (induction keys arbitrary: t)
  case Nil
  then show ?case by (auto split: option.splits)
next
  case (Cons key keys)
  show ?case
  proof (cases "node_next t ! (fst key * 5 + snd key)")
    case None
    then show ?thesis using Cons by (auto split: if_splits)
  next
    case (Some child)
    with Cons.prems have "walk child keys = Inr n" by (auto split: if_splits)
    from Cons.IH [OF this Cons.prems(2)] obtain t' where "update_node child keys g a b = Inr t'"
      by blast
    then show ?thesis using Some Cons.prems by (auto split: if_splits)
  qed
qed

lemma update_tree_succeeds:
  assumes "search_tree s a b = Inr x"
  shows "\<exists>r. update_tree s g a b = Inr (s\<lparr>tree := (tree s)\<lparr>root := r\<rparr>\<rparr>)"
proof -
  from assms obtain n where "walk (root (tree s)) (log s) = Inr n" "a * 5 + b < length (node_next n)"
    by (auto simp: search_tree_def split: sum.splits if_splits)
  from update_node_succeeds [OF this, of g] obtain t' where
    "update_node (root (tree s)) (log s) g a b = Inr t'" by blast
  then have "update_tree s g a b = Inr (s\<lparr>tree := (tree s)\<lparr>root := t'\<rparr>\<rparr>)"
    by (simp add: update_tree_def)
  then show ?thesis by blast
qed

lemma remove_loop_subset:
  "remove_loop recs ds = Inr recs' \<Longrightarrow> set recs' \<subseteq> set recs \<and> (distinct recs \<longrightarrow> distinct recs')"
proof (induction ds arbitrary: recs)
  case Nil
  then show ?case by simp
next
  case (Cons d ds)
  then have "remove_loop (removeAll d recs) ds = Inr recs'" by (auto split: if_splits)
  from Cons.IH [OF this] show ?case by (auto simp: distinct_removeAll)
qed

lemma filter_record_subset:
  assumes "filter_record s a b = Inr s1"
  shows "set (records s1) \<subseteq> set (records s) \<and> (distinct (records s) \<longrightarrow> distinct (records s1))"
proof -
  from assms obtain ds where "remove_loop (records s) ds = Inr (records s1)"
    by (auto simp: filter_record_def split: sum.splits)
  then show ?thesis by (rule remove_loop_subset)
qed


lemma scan_number_list:
  assumes "distinct (records s1)" "set (records s1) \<subseteq> numbers"
  shows "\<exists>c' v' pre post. scan s1 number_list ([], 100000) = Inr (c', v') \<and>
           c' \<in> set number_list \<and> number_list = pre @ c' # post \<and>
           (\<forall>k \<in> set pre. largest_bucket (records s1) c' < largest_bucket (records s1) k) \<and>
           (\<forall>k \<in> set post. largest_bucket (records s1) c' \<le> largest_bucket (records s1) k)"
proof -
  let ?w = "largest_bucket (records s1)"
  have len1: "\<forall>key \<in> set (records s1). 4 \<le> length key"
    using assms(2) by (auto simp: numbers_eq)
  have sc: "\<forall>key \<in> set number_list. calculate_score s1 key = Inr (?w key)"
    using assms(1) len1 by (auto intro!: calculate_score_eq simp: number_list_length_4)
  from scan_first_minimum [OF sc, of "[]" 100000] obtain c' v' where
    run: "scan s1 number_list ([], 100000) = Inr (c', v')" and
    d: "(c', v') = ([], 100000) \<and> (\<forall>k \<in> set number_list. 100000 \<le> ?w k) \<or>
        (\<exists>pre post. number_list = pre @ c' # post \<and> v' = ?w c' \<and> ?w c' < 100000 \<and>
           (\<forall>k \<in> set pre. ?w c' < ?w k) \<and> (\<forall>k \<in> set post. ?w c' \<le> ?w k))"
    by blast
  have "?w ''0123'' \<le> 5040"
    using largest_bucket_le [of "records s1" "''0123''"] records_bound [OF assms] by simp
  moreover have "''0123'' \<in> set number_list" using first_number_mem set_number_list by simp
  ultimately have "\<not> (\<forall>k \<in> set number_list. 100000 \<le> ?w k)" by fastforce
  with d obtain pre post where p: "number_list = pre @ c' # post"
    "\<forall>k \<in> set pre. ?w c' < ?w k" "\<forall>k \<in> set post. ?w c' \<le> ?w k" by blast
  have "c' \<in> set (pre @ c' # post)" by simp
  then have "c' \<in> set number_list" by (simp only: p(1) [symmetric])
  with run p show ?thesis by blast
qed

text \<open>
  Claim C1. When the record set left by the filter has at least two members and the
  decision cache has no guess for the history, \<open>guess\<close> runs the scan and returns the
  candidate \<open>g\<close> of the full candidate space whose largest bucket is smallest: every
  candidate iterated before \<open>g\<close> has a strictly larger largest bucket, every candidate
  iterated after it one at least as large.
\<close>

theorem guess_minimax:
  assumes "parse_result r = Inr (a, b)" and "filter_record s a b = Inr s1"
    and "distinct (records s)" and "set (records s) \<subseteq> numbers"
    and "2 \<le> length (records s1)" and "search_tree s1 a b = Inr []"
  shows "\<exists>g s' pre post. guess s (Some r) = Inr (g, s') \<and>
           guess_traced s (Some r) = Inr (g, Scanned, s') \<and>
           number_list = pre @ g # post \<and>
           (\<forall>h \<in> set pre. largest_bucket (records s1) g < largest_bucket (records s1) h) \<and>
           (\<forall>h \<in> set post. largest_bucket (records s1) g \<le> largest_bucket (records s1) h)"
proof -
  have r1: "distinct (records s1)" "set (records s1) \<subseteq> numbers"
    using filter_record_subset [OF assms(2)] assms(3,4) by auto
  from scan_number_list [OF r1] obtain c' v' pre post where
    run: "scan s1 number_list ([], 100000) = Inr (c', v')" and
    p: "number_list = pre @ c' # post"
      "\<forall>k \<in> set pre. largest_bucket (records s1) c' < largest_bucket (records s1) k"
      "\<forall>k \<in> set post. largest_bucket (records s1) c' \<le> largest_bucket (records s1) k"
    by blast
  from update_tree_succeeds [OF assms(6), of c'] obtain t' where
    u: "update_tree s1 c' a b = Inr (s1\<lparr>tree := (tree s1)\<lparr>root := t'\<rparr>\<rparr>)" by blast
  let ?s' = "s1\<lparr>tree := (tree s1)\<lparr>root := t'\<rparr>, previous := c', log := log s1 @ [(a, b)]\<rparr>"
  have ne: "length (records s1) \<noteq> 1" using assms(5) by simp
  have "guess_traced s (Some r) = Inr (c', Scanned, ?s')"
    using assms(1,2,6) ne run u by (simp add: guess_traced_def)
  then have "guess s (Some r) = Inr (c', ?s') \<and> guess_traced s (Some r) = Inr (c', Scanned, ?s')"
    by (simp add: guess_def)
  with p show ?thesis by blast
qed

lemma calculate_score_empty:
  assumes "records s = []"
  shows "calculate_score s g = Inr 0"
  using assms by (simp add: calculate_score_def)

lemma scan_empty_records:
  assumes "records s = []"
  shows "scan s keys (c, 0) = Inr (c, 0)"
  using assms by (induction keys) (simp_all add: calculate_score_empty)

lemma number_list_Cons: "\<exists>l. number_list = ''0123'' # l"
proof -
  have "''0123'' \<in> set number_list" using first_number_mem set_number_list by simp
  then have "number_list \<noteq> []" by auto
  then have "number_list = hd number_list # tl number_list" by simp
  then have "number_list = ''0123'' # tl number_list" by (simp only: hd_number_list)
  then show ?thesis by blast
qed

lemma scan_empty_number_list:
  assumes "records s = []"
  shows "scan s number_list ([], 100000) = Inr (''0123'', 0)"
proof -
  obtain l where nl: "number_list = ''0123'' # l" using number_list_Cons by blast
  have "scan s (''0123'' # l) ([], 100000) = Inr (''0123'', 0)"
    using assms by (simp add: calculate_score_empty scan_empty_records)
  then show ?thesis unfolding nl .
qed

lemma filter_record_fields:
  "filter_record s a b = Inr s1 \<Longrightarrow> previous s1 = previous s \<and> log s1 = log s \<and> tree s1 = tree s"
  by (auto simp: filter_record_def split: sum.splits)

text \<open>The opening guess of a new engine, and the state it leaves.\<close>

lemma opening_guess:
  "guess GuessNumberAI_new None =
     Inr (''0123'', \<lparr>previous = ''0123'', log = [], records = number_list, tree = GuessNumberTree_new\<rparr>)"
  by (simp add: guess_def guess_traced_def GuessNumberAI_new_def initialize_def number_list_def)

text \<open>
  Claim C2, as the code has it. When the filter leaves no record, \<open>guess\<close> reports no
  failure: it returns the cached guess when the lookup finds one, and otherwise the first
  member \<open>0123\<close> of the candidate space, every candidate having the score 0.
\<close>

theorem guess_empty_records:
  assumes "parse_result r = Inr (a, b)" and "filter_record s a b = Inr s1"
    and "records s1 = []" and "search_tree s1 a b = Inr search_result"
  shows "\<exists>s'. guess s (Some r) = Inr (if search_result = [] then ''0123'' else search_result, s') \<and>
           records s' = [] \<and> log s' = log s @ [(a, b)] \<and>
           previous s' = (if search_result = [] then ''0123'' else search_result)"
proof (cases "search_result = []")
  case False
  let ?s' = "s1\<lparr>previous := search_result, log := log s1 @ [(a, b)]\<rparr>"
  have "guess s (Some r) = Inr (search_result, ?s')"
    using assms False by (simp add: guess_def guess_traced_def)
  then show ?thesis using assms(3) False filter_record_fields [OF assms(2)]
    by (intro exI [of _ ?s']) simp
next
  case True
  from update_tree_succeeds [OF assms(4), of "''0123''"] obtain t' where
    u: "update_tree s1 ''0123'' a b = Inr (s1\<lparr>tree := (tree s1)\<lparr>root := t'\<rparr>\<rparr>)" by blast
  let ?s' = "s1\<lparr>tree := (tree s1)\<lparr>root := t'\<rparr>, previous := ''0123'', log := log s1 @ [(a, b)]\<rparr>"
  have "guess s (Some r) = Inr (''0123'', ?s')"
    using assms True u scan_empty_number_list [OF assms(3)]
    by (simp add: guess_def guess_traced_def)
  then show ?thesis using assms(3) True filter_record_fields [OF assms(2)]
    by (intro exI [of _ ?s']) simp
qed

lemma count_ab_never_4_4:
  "count_ab x y \<noteq> Inr (4, 4)"
proof (cases "4 \<le> length x \<and> 4 \<le> length y")
  case True
  then show ?thesis using count_ab_ge4 [of x y] by auto
next
  case False
  then show ?thesis by (auto simp: count_ab_def upt_0_4)
qed

text \<open>
  After the opening guess the feedback \<open>4A4B\<close> is consistent with no candidate: the filter
  empties the record set, the scan runs and returns \<open>0123\<close>, which is stored in the cache.
\<close>

lemma contradiction_trace:
  "guess_traced \<lparr>previous = ''0123'', log = [], records = number_list, tree = GuessNumberTree_new\<rparr>
     (Some ''4A4B'') =
   Inr (''0123'', Scanned,
        \<lparr>previous = ''0123'', log = [(4, 4)], records = [],
         tree = \<lparr>root = TreeNode ''0123''
                   ((replicate 25 None)[24 := Some (TreeNode ''0123'' (replicate 25 None))])\<rparr>\<rparr>)"
proof -
  let ?s = "\<lparr>previous = ''0123'', log = [], records = number_list, tree = GuessNumberTree_new\<rparr>"
  have p: "parse_result ''4A4B'' = Inr (4, 4)"
    using parse_result_answer [of 4 4] by (simp add: decimal_digit digit_char_values)
  have "filter_record ?s 4 4 =
        Inr (?s\<lparr>records := filter (\<lambda>key. count_ab key (previous ?s) = Inr (4, 4)) (records ?s)\<rparr>)"
    by (intro filter_record_eq) (simp_all add: distinct_number_list number_list_length_4)
  then have f: "filter_record ?s 4 4 = Inr (?s\<lparr>records := []\<rparr>)"
    by (simp add: count_ab_never_4_4)
  have st: "search_tree (?s\<lparr>records := []\<rparr>) 4 4 = Inr []"
    by (simp add: search_tree_def GuessNumberTree_new_def)
  have u: "update_tree (?s\<lparr>records := []\<rparr>) ''0123'' 4 4 =
     Inr (?s\<lparr>records := [], tree := \<lparr>root = TreeNode ''0123''
                   ((replicate 25 None)[24 := Some (TreeNode ''0123'' (replicate 25 None))])\<rparr>\<rparr>)"
    by (simp add: update_tree_def GuessNumberTree_new_def)
  have sc: "scan (?s\<lparr>records := []\<rparr>) number_list ([], 100000) = Inr (''0123'', 0)"
    by (rule scan_empty_number_list) simp
  show ?thesis using p f st u sc by (simp add: guess_traced_def)
qed

text \<open>
  Claim C2 as stated fails: after the opening guess, the feedback \<open>4A4B\<close> is consistent
  with no candidate; \<open>guess\<close> returns \<open>0123\<close> normally and stores it in the cache.
\<close>

theorem guess_contradiction_counterexample:
  "guess \<lparr>previous = ''0123'', log = [], records = number_list, tree = GuessNumberTree_new\<rparr>
     (Some ''4A4B'') =
   Inr (''0123'',
        \<lparr>previous = ''0123'', log = [(4, 4)], records = [],
         tree = \<lparr>root = TreeNode ''0123''
                   ((replicate 25 None)[24 := Some (TreeNode ''0123'' (replicate 25 None))])\<rparr>\<rparr>)"
  by (simp add: guess_def contradiction_trace)

theorem guess_empty_records_witness:
  "parse_result ''4A4B'' = Inr (4, 4) \<and>
   filter_record \<lparr>previous = ''0123'', log = [], records = number_list, tree = GuessNumberTree_new\<rparr> 4 4 =
     Inr \<lparr>previous = ''0123'', log = [], records = [], tree = GuessNumberTree_new\<rparr> \<and>
   records \<lparr>previous = ''0123'', log = [], records = [], tree = GuessNumberTree_new\<rparr> = [] \<and>
   search_tree \<lparr>previous = ''0123'', log = [], records = [], tree = GuessNumberTree_new\<rparr> 4 4 = Inr [] \<and>
   (\<exists>s'. guess \<lparr>previous = ''0123'', log = [], records = number_list, tree = GuessNumberTree_new\<rparr>
           (Some ''4A4B'') = Inr (''0123'', s') \<and>
         records s' = [] \<and> log s' = [(4, 4)] \<and> previous s' = ''0123'')"
proof -
  let ?s = "\<lparr>previous = ''0123'', log = [], records = number_list, tree = GuessNumberTree_new\<rparr>"
  let ?s1 = "\<lparr>previous = ''0123'', log = [], records = [], tree = GuessNumberTree_new\<rparr>"
  have p: "parse_result ''4A4B'' = Inr (4, 4)"
    using parse_result_answer [of 4 4] by (simp add: decimal_digit digit_char_values)
  have "filter_record ?s 4 4 =
        Inr (?s\<lparr>records := filter (\<lambda>key. count_ab key (previous ?s) = Inr (4, 4)) (records ?s)\<rparr>)"
    by (intro filter_record_eq) (simp_all add: distinct_number_list number_list_length_4)
  then have f: "filter_record ?s 4 4 = Inr ?s1"
    by (simp add: count_ab_never_4_4)
  have e: "records ?s1 = []" by simp
  have st: "search_tree ?s1 4 4 = Inr []"
    by (simp add: search_tree_def GuessNumberTree_new_def)
  from guess_empty_records [OF p f e st] p f st show ?thesis by simp
qed

lemma mem_numbers_0132: "''0132'' \<in> numbers" "''0213'' \<in> numbers" "''4567'' \<in> numbers"
  by (simp_all add: numbers_eq digit_chars_def)

theorem guess_minimax_witness:
  "parse_result ''2A2B'' = Inr (2, 2) \<and>
   filter_record \<lparr>previous = ''0123'', log = [], records = [''0132'', ''0213'', ''4567''],
                   tree = GuessNumberTree_new\<rparr> 2 2 =
     Inr \<lparr>previous = ''0123'', log = [], records = [''0132'', ''0213''], tree = GuessNumberTree_new\<rparr> \<and>
   distinct [''0132'', ''0213'', ''4567''] \<and> set [''0132'', ''0213'', ''4567''] \<subseteq> numbers \<and>
   2 \<le> length [''0132'', ''0213''] \<and>
   search_tree \<lparr>previous = ''0123'', log = [], records = [''0132'', ''0213''],
                 tree = GuessNumberTree_new\<rparr> 2 2 = Inr [] \<and>
   (\<exists>g s' pre post.
      guess \<lparr>previous = ''0123'', log = [], records = [''0132'', ''0213'', ''4567''],
              tree = GuessNumberTree_new\<rparr> (Some ''2A2B'') = Inr (g, s') \<and>
      number_list = pre @ g # post \<and>
      list_all (\<lambda>h. largest_bucket [''0132'', ''0213''] g < largest_bucket [''0132'', ''0213''] h) pre \<and>
      list_all (\<lambda>h. largest_bucket [''0132'', ''0213''] g \<le> largest_bucket [''0132'', ''0213''] h) post)"
proof -
  let ?s = "\<lparr>previous = ''0123'', log = [], records = [''0132'', ''0213'', ''4567''],
             tree = GuessNumberTree_new\<rparr>"
  let ?s1 = "\<lparr>previous = ''0123'', log = [], records = [''0132'', ''0213''],
              tree = GuessNumberTree_new\<rparr>"
  have p: "parse_result ''2A2B'' = Inr (2, 2)"
    using parse_result_answer [of 2 2] by (simp add: decimal_digit digit_char_values)
  have c: "count_ab ''0132'' ''0123'' = Inr (2, 2)" "count_ab ''0213'' ''0123'' = Inr (2, 2)"
     "count_ab ''4567'' ''0123'' = Inr (0, 0)"
    by (simp_all add: count_ab_def upt_0_4)
  have f: "filter_record ?s 2 2 = Inr ?s1"
    by (subst filter_record_eq) (simp_all add: c)
  have d: "distinct (records ?s)" by simp
  have sub: "set (records ?s) \<subseteq> numbers" by (simp add: mem_numbers_0132)
  have l: "2 \<le> length (records ?s1)" by simp
  have st: "search_tree ?s1 2 2 = Inr []"
    by (simp add: search_tree_def GuessNumberTree_new_def)
  from guess_minimax [OF p f d sub l st] have
    "\<exists>g s' pre post. guess ?s (Some ''2A2B'') = Inr (g, s') \<and> number_list = pre @ g # post \<and>
      (\<forall>h \<in> set pre. largest_bucket (records ?s1) g < largest_bucket (records ?s1) h) \<and>
      (\<forall>h \<in> set post. largest_bucket (records ?s1) g \<le> largest_bucket (records ?s1) h)"
    by blast
  then show ?thesis using p f sub st by (simp add: list_all_iff)
qed

subsection \<open>Cache consistency across sessions\<close>

lemma tree_le_refl: "tree_le t t"
  by (simp add: tree_le_def)

lemma tree_le_trans: "tree_le t1 t2 \<Longrightarrow> tree_le t2 t3 \<Longrightarrow> tree_le t1 t3"
  unfolding tree_le_def by (metis)

lemma strict_walk_fresh:
  "strict_walk (TreeNode g (replicate 25 None)) h = Some m \<Longrightarrow> h = [] \<and> m = TreeNode g (replicate 25 None)"
  by (cases h) (auto split: if_splits option.splits)

lemma strict_walk_Cons_Some:
  "strict_walk t (k # h) = Some m \<longleftrightarrow>
   (\<exists>c. fst k * 5 + snd k < length (node_next t) \<and> node_next t ! (fst k * 5 + snd k) = Some c \<and>
        strict_walk c h = Some m)"
  by (auto split: if_splits option.splits)

lemma update_node_le:
  assumes "strict_walk t keys = Some n" "update_node t keys g a b = Inr t'"
  shows "tree_le t t'"
  using assms
proof (induction keys arbitrary: t t')
  case Nil
  show ?case unfolding tree_le_def
  proof (intro allI impI)
    fix h m assume w: "strict_walk t h = Some m"
    show "\<exists>n'. strict_walk t' h = Some n' \<and> node_record n' = node_record m"
    proof (cases h)
      case Nil
      then show ?thesis using w Nil.prems by (auto split: if_splits option.splits)
    next
      case (Cons k h')
      then show ?thesis using w Nil.prems
        by (auto simp: nth_list_update split: if_splits option.splits)
    qed
  qed
next
  case (Cons key keys)
  from Cons.prems(1) obtain child where
    c: "fst key * 5 + snd key < length (node_next t)"
       "node_next t ! (fst key * 5 + snd key) = Some child" "strict_walk child keys = Some n"
    unfolding strict_walk_Cons_Some by blast
  with Cons.prems(2) obtain child' where
    c': "update_node child keys g a b = Inr child'"
        "t' = TreeNode (node_record t) ((node_next t)[fst key * 5 + snd key := Some child'])"
    by (auto split: sum.splits)
  have le: "tree_le child child'" using c(3) c'(1) by (rule Cons.IH)
  show ?case unfolding tree_le_def
  proof (intro allI impI)
    fix h m assume w: "strict_walk t h = Some m"
    show "\<exists>n'. strict_walk t' h = Some n' \<and> node_record n' = node_record m"
    proof (cases h)
      case Nil
      then show ?thesis using w c' by auto
    next
      case (Cons k h')
      from w have "strict_walk t (k # h') = Some m" by (simp only: Cons)
      then obtain d where d: "fst k * 5 + snd k < length (node_next t)"
        "node_next t ! (fst k * 5 + snd k) = Some d" "strict_walk d h' = Some m"
        unfolding strict_walk_Cons_Some by blast
      show ?thesis
      proof (cases "fst k * 5 + snd k = fst key * 5 + snd key")
        case True
        with d c have "strict_walk child h' = Some m" by simp
        with le obtain n' where "strict_walk child' h' = Some n'" "node_record n' = node_record m"
          unfolding tree_le_def by blast
        then show ?thesis using Cons True c c' by simp
      next
        case False
        then show ?thesis using Cons d c' by simp
      qed
    qed
  qed
qed

lemma update_node_inserted:
  assumes "strict_walk t keys = Some n" "update_node t keys g a b = Inr t'"
  shows "\<exists>c. strict_walk t' (keys @ [(a, b)]) = Some c \<and>
           node_record c = (case strict_walk t (keys @ [(a, b)]) of None \<Rightarrow> g | Some c0 \<Rightarrow> node_record c0)"
  using assms
proof (induction keys arbitrary: t t')
  case Nil
  then show ?case by (auto split: if_splits option.splits)
next
  case (Cons key keys)
  from Cons.prems(1) obtain child where
    c: "fst key * 5 + snd key < length (node_next t)"
       "node_next t ! (fst key * 5 + snd key) = Some child" "strict_walk child keys = Some n"
    unfolding strict_walk_Cons_Some by blast
  with Cons.prems(2) obtain child' where
    c': "update_node child keys g a b = Inr child'"
        "t' = TreeNode (node_record t) ((node_next t)[fst key * 5 + snd key := Some child'])"
    by (auto split: sum.splits)
  from Cons.IH [OF c(3) c'(1)] show ?case using c c' by simp
qed

lemma update_node_records:
  assumes "strict_walk t keys = Some n" "update_node t keys g a b = Inr t'"
    and "strict_walk t' h = Some m"
  shows "node_record m = g \<or> (\<exists>m0. strict_walk t h = Some m0 \<and> node_record m0 = node_record m)"
  using assms
proof (induction keys arbitrary: t t' h)
  case Nil
  show ?case
  proof (cases h)
    case Nil
    then show ?thesis using Nil.prems by (auto split: if_splits option.splits)
  next
    case (Cons k h')
    show ?thesis
    proof (cases "node_next t ! (a * 5 + b)")
      case (Some c)
      then have "t' = t" using Nil.prems(2) by (auto split: if_splits)
      then show ?thesis using Nil.prems(3) by blast
    next
      case None
      then have t': "t' = TreeNode (node_record t)
          ((node_next t)[a * 5 + b := Some (TreeNode g (replicate 25 None))])"
        and lt: "a * 5 + b < length (node_next t)"
        using Nil.prems(2) by (auto split: if_splits)
      from Nil.prems(3) obtain c where c: "fst k * 5 + snd k < length (node_next t')"
        "node_next t' ! (fst k * 5 + snd k) = Some c" "strict_walk c h' = Some m"
        unfolding Cons strict_walk_Cons_Some by blast
      show ?thesis
      proof (cases "fst k * 5 + snd k = a * 5 + b")
        case True
        then have "c = TreeNode g (replicate 25 None)" using c(2) lt t' by simp
        with c(3) have "m = TreeNode g (replicate 25 None)" using strict_walk_fresh by blast
        then show ?thesis by simp
      next
        case False
        then have "node_next t ! (fst k * 5 + snd k) = Some c" "fst k * 5 + snd k < length (node_next t)"
          using c(1,2) t' by simp_all
        then have "strict_walk t (k # h') = Some m" using c(3) by simp
        then show ?thesis using Cons by blast
      qed
    qed
  qed
next
  case (Cons key keys)
  from Cons.prems(1) obtain child where
    c: "fst key * 5 + snd key < length (node_next t)"
       "node_next t ! (fst key * 5 + snd key) = Some child" "strict_walk child keys = Some n"
    unfolding strict_walk_Cons_Some by blast
  with Cons.prems(2) obtain child' where
    c': "update_node child keys g a b = Inr child'"
        "t' = TreeNode (node_record t) ((node_next t)[fst key * 5 + snd key := Some child'])"
    by (auto split: sum.splits)
  show ?case
  proof (cases h)
    case Nil
    then show ?thesis using Cons.prems(3) c' by auto
  next
    case (Cons k h')
    show ?thesis
    proof (cases "fst k * 5 + snd k = fst key * 5 + snd key")
      case True
      with Cons Cons.prems(3) c c' have "strict_walk child' h' = Some m" by simp
      from Cons.IH [OF c(3) c'(1) this] show ?thesis using Cons True c by simp
    next
      case False
      then show ?thesis using Cons Cons.prems(3) c' c
        by (auto simp: strict_walk_Cons_Some)
    qed
  qed
qed


lemma guess_traced_SomeE:
  assumes "guess_traced s (Some r) = Inr (g, br, s')"
  obtains (single) a b s1 where "parse_result r = Inr (a, b)" "filter_record s a b = Inr s1"
      "length (records s1) = 1" "g = hd (records s1)" "br = Single" "s' = s1"
  | (cached) a b s1 where "parse_result r = Inr (a, b)" "filter_record s a b = Inr s1"
      "length (records s1) \<noteq> 1" "search_tree s1 a b = Inr g" "g \<noteq> []" "br = Cached"
      "s' = s1\<lparr>previous := g, log := log s1 @ [(a, b)]\<rparr>"
  | (scanned) a b s1 v s2 where "parse_result r = Inr (a, b)" "filter_record s a b = Inr s1"
      "length (records s1) \<noteq> 1" "search_tree s1 a b = Inr []"
      "scan s1 number_list ([], 100000) = Inr (g, v)" "update_tree s1 g a b = Inr s2"
      "br = Scanned" "s' = s2\<lparr>previous := g, log := log s2 @ [(a, b)]\<rparr>"
  using assms by (auto simp: guess_traced_def split: sum.splits if_splits prod.splits)

lemma update_tree_fields:
  "update_tree s g a b = Inr s2 \<Longrightarrow>
   previous s2 = previous s \<and> log s2 = log s \<and> records s2 = records s \<and>
   update_node (root (tree s)) (log s) g a b = Inr (root (tree s2))"
  by (auto simp: update_tree_def split: sum.splits)

lemma search_tree_fields:
  "previous s' = previous s \<Longrightarrow> log s' = log s \<Longrightarrow> tree s' = tree s \<Longrightarrow>
   search_tree s' a b = search_tree s a b"
  by (simp add: search_tree_def)

lemma search_tree_hit:
  assumes "strict_walk (root (tree s)) (log s) = Some n" "search_tree s a b = Inr g" "g \<noteq> []"
  shows "\<exists>c. strict_walk (root (tree s)) (log s @ [(a, b)]) = Some c \<and> node_record c = g"
  using assms search_tree_present [OF assms(1), of a b]
  by (auto simp: spec_lookup_def split: if_splits option.splits)

lemma search_tree_miss:
  assumes "strict_walk (root (tree s)) (log s) = Some n" "search_tree s a b = Inr []"
    and "\<forall>h n. strict_walk (root (tree s)) h = Some n \<longrightarrow> node_record n \<noteq> []"
  shows "strict_walk (root (tree s)) (log s @ [(a, b)]) = None"
  using assms search_tree_present [OF assms(1), of a b]
  by (auto simp: spec_lookup_def split: if_splits option.splits)

lemma search_tree_found:
  assumes "strict_walk (root (tree s)) (log s @ [(a, b)]) = Some c"
  shows "search_tree s a b = Inr (node_record c)"
proof -
  from assms obtain n where n: "strict_walk (root (tree s)) (log s) = Some n"
    "strict_walk n [(a, b)] = Some c"
    by (auto simp: strict_walk_append split: option.splits)
  then have "a * 5 + b < length (node_next n)" by (auto split: if_splits)
  then show ?thesis using search_tree_present [OF n(1), of a b] assms
    by (simp add: spec_lookup_def)
qed

lemma guess_traced_inv:
  assumes "engine_inv s" "guess_traced s r = Inr (g, br, s')"
  shows "engine_inv s' \<and> tree_le (root (tree s)) (root (tree s'))"
proof (cases r)
  case None
  then have "s' = (initialize s)\<lparr>previous := ''0123''\<rparr>" using assms(2) by (auto simp: guess_traced_def)
  then show ?thesis using assms(1)
    by (simp add: engine_inv_def initialize_def numbers_def tree_le_refl)
next
  case (Some fb)
  from assms(1) obtain n where n: "strict_walk (root (tree s)) (log s) = Some n"
    and ne: "\<forall>h n. strict_walk (root (tree s)) h = Some n \<longrightarrow> node_record n \<noteq> []"
    and d: "distinct (records s)" and sub: "set (records s) \<subseteq> numbers"
    by (auto simp: engine_inv_def)
  from assms(2) [unfolded Some] show ?thesis
  proof (cases rule: guess_traced_SomeE)
    case (single a b s1)
    then show ?thesis
      using filter_record_fields [OF single(2)] filter_record_subset [OF single(2)] assms(1)
      by (auto simp: engine_inv_def tree_le_refl)
  next
    case (cached a b s1)
    have f: "previous s1 = previous s" "log s1 = log s" "tree s1 = tree s"
      using filter_record_fields [OF cached(2)] by simp_all
    have "\<exists>c. strict_walk (root (tree s1)) (log s1 @ [(a, b)]) = Some c \<and> node_record c = g"
      using n cached(4,5) f by (intro search_tree_hit) simp_all
    then show ?thesis
      using cached(7) f filter_record_subset [OF cached(2)] d sub ne
      by (auto simp: engine_inv_def tree_le_refl)
  next
    case (scanned a b s1 v s2)
    have f: "previous s1 = previous s" "log s1 = log s" "tree s1 = tree s"
      using filter_record_fields [OF scanned(2)] by simp_all
    have r1: "distinct (records s1)" "set (records s1) \<subseteq> numbers"
      using filter_record_subset [OF scanned(2)] d sub by auto
    from scan_number_list [OF r1] scanned(5) have "g \<in> set number_list" by auto
    then have g: "g \<noteq> []" using number_list_length_4 by fastforce
    have u: "update_node (root (tree s)) (log s) g a b = Inr (root (tree s2))"
      "records s2 = records s1" "log s2 = log s"
      using update_tree_fields [OF scanned(6)] f by simp_all
    have le: "tree_le (root (tree s)) (root (tree s2))" using n u(1) by (rule update_node_le)
    from update_node_inserted [OF n u(1)] obtain c where
      "strict_walk (root (tree s2)) (log s @ [(a, b)]) = Some c" by blast
    moreover have "\<forall>h m. strict_walk (root (tree s2)) h = Some m \<longrightarrow> node_record m \<noteq> []"
      using update_node_records [OF n u(1)] ne g by metis
    ultimately show ?thesis using scanned(8) u r1 le by (simp add: engine_inv_def)
  qed
qed


lemma to_delete_loop_cong:
  "previous v = previous u \<Longrightarrow> to_delete_loop v a b keys = to_delete_loop u a b keys"
  by (induction keys) (simp_all add: check_result_def cong: sum.case_cong)

lemma filter_record_cong:
  assumes "previous v = previous u" "records v = records u" "filter_record u a b = Inr u1"
  shows "filter_record v a b = Inr (v\<lparr>records := records u1\<rparr>)"
  using assms to_delete_loop_cong [OF assms(1), of a b "records u"]
  by (auto simp: filter_record_def split: sum.splits)

lemma step_sim:
  assumes inv: "engine_inv u"
    and same: "previous v = previous u" "log v = log u" "records v = records u"
    and step: "guess_traced u (Some r) = Inr (g, br, u')"
    and le: "tree_le (root (tree u')) (root (tree v))"
  shows "\<exists>br' v'. guess_traced v (Some r) = Inr (g, br', v') \<and> br' \<noteq> Scanned \<and>
           previous v' = previous u' \<and> log v' = log u' \<and> records v' = records u' \<and>
           tree v' = tree v"
proof -
  from inv obtain n where n: "strict_walk (root (tree u)) (log u) = Some n"
    and ne: "\<forall>h n. strict_walk (root (tree u)) h = Some n \<longrightarrow> node_record n \<noteq> []"
    and d: "distinct (records u)" and sub: "set (records u) \<subseteq> numbers"
    by (auto simp: engine_inv_def)
  from step show ?thesis
  proof (cases rule: guess_traced_SomeE)
    case (single a b s1)
    let ?v1 = "v\<lparr>records := records s1\<rparr>"
    have fv: "filter_record v a b = Inr ?v1" using same(1,3) single(2) by (rule filter_record_cong)
    have "guess_traced v (Some r) = Inr (g, Single, ?v1)"
      using single fv by (simp add: guess_traced_def)
    then show ?thesis using single same filter_record_fields [OF single(2)] by simp
  next
    case (cached a b s1)
    let ?v1 = "v\<lparr>records := records s1\<rparr>"
    have fv: "filter_record v a b = Inr ?v1" using same(1,3) cached(2) by (rule filter_record_cong)
    have f: "previous s1 = previous u" "log s1 = log u" "tree s1 = tree u"
      using filter_record_fields [OF cached(2)] by simp_all
    have "\<exists>c. strict_walk (root (tree s1)) (log s1 @ [(a, b)]) = Some c \<and> node_record c = g"
      using n cached(4,5) f by (intro search_tree_hit) simp_all
    then obtain c where "strict_walk (root (tree u')) (log u @ [(a, b)]) = Some c" "node_record c = g"
      using f cached(7) by auto
    with le obtain c' where c': "strict_walk (root (tree v)) (log u @ [(a, b)]) = Some c'"
      "node_record c' = g" unfolding tree_le_def by blast
    have "search_tree ?v1 a b = Inr (node_record c')"
      using c'(1) same(2) by (intro search_tree_found) simp
    then have "guess_traced v (Some r) =
        Inr (g, Cached, ?v1\<lparr>previous := g, log := log ?v1 @ [(a, b)]\<rparr>)"
      using cached fv c'(2) by (simp add: guess_traced_def)
    then show ?thesis using cached(7) same f by simp
  next
    case (scanned a b s1 w s2)
    let ?v1 = "v\<lparr>records := records s1\<rparr>"
    have fv: "filter_record v a b = Inr ?v1" using same(1,3) scanned(2) by (rule filter_record_cong)
    have f: "previous s1 = previous u" "log s1 = log u" "tree s1 = tree u"
      using filter_record_fields [OF scanned(2)] by simp_all
    have r1: "distinct (records s1)" "set (records s1) \<subseteq> numbers"
      using filter_record_subset [OF scanned(2)] d sub by auto
    from scan_number_list [OF r1] scanned(5) have "g \<in> set number_list" by auto
    then have g: "g \<noteq> []" using number_list_length_4 by fastforce
    have up: "update_node (root (tree u)) (log u) g a b = Inr (root (tree s2))"
      "records s2 = records s1" "log s2 = log u"
      using update_tree_fields [OF scanned(6)] f by simp_all
    have "strict_walk (root (tree s1)) (log s1 @ [(a, b)]) = None"
      using n scanned(4) ne f by (intro search_tree_miss) simp_all
    then have miss: "strict_walk (root (tree u)) (log u @ [(a, b)]) = None" using f by simp
    from update_node_inserted [OF n up(1)] miss obtain c where
      "strict_walk (root (tree s2)) (log u @ [(a, b)]) = Some c" "node_record c = g" by auto
    then have "strict_walk (root (tree u')) (log u @ [(a, b)]) = Some c" using scanned(8) by simp
    with le \<open>node_record c = g\<close> obtain c' where
      c': "strict_walk (root (tree v)) (log u @ [(a, b)]) = Some c'" "node_record c' = g"
      unfolding tree_le_def by blast
    have "search_tree ?v1 a b = Inr (node_record c')"
      using c'(1) same(2) by (intro search_tree_found) simp
    then have "guess_traced v (Some r) =
        Inr (g, Cached, ?v1\<lparr>previous := g, log := log ?v1 @ [(a, b)]\<rparr>)"
      using scanned(1,3) fv c'(2) g by (simp add: guess_traced_def)
    then show ?thesis using scanned(8) same up by simp
  qed
qed

lemma calls_inv:
  assumes "engine_inv u" "calls u rs = Inr (out, u')"
  shows "engine_inv u' \<and> tree_le (root (tree u)) (root (tree u'))"
  using assms
proof (induction rs arbitrary: u out)
  case Nil
  then show ?case by (simp add: tree_le_refl)
next
  case (Cons r rs)
  from Cons.prems(2) obtain g br u1 out1 where
    s: "guess_traced u r = Inr (g, br, u1)" "calls u1 rs = Inr (out1, u')"
    by (auto split: sum.splits)
  from guess_traced_inv [OF Cons.prems(1) s(1)] have i1: "engine_inv u1"
    and l1: "tree_le (root (tree u)) (root (tree u1))" by simp_all
  from Cons.IH [OF i1 s(2)] l1 show ?case by (auto intro: tree_le_trans)
qed

lemma calls_sim:
  assumes "engine_inv u" "previous v = previous u" "log v = log u" "records v = records u"
    and "calls u (map Some fs) = Inr (out1, u_end)"
    and "tree_le (root (tree u_end)) (root (tree v))"
  shows "\<exists>out2 v_end. calls v (map Some fs) = Inr (out2, v_end) \<and> map fst out2 = map fst out1 \<and>
           Scanned \<notin> snd ` set out2 \<and> tree v_end = tree v"
  using assms
proof (induction fs arbitrary: u v out1)
  case Nil
  then show ?case by simp
next
  case (Cons f fs)
  from Cons.prems(5) obtain g br u1 out1' where
    s: "guess_traced u (Some f) = Inr (g, br, u1)" "calls u1 (map Some fs) = Inr (out1', u_end)"
      "out1 = (g, br) # out1'"
    by (auto split: sum.splits)
  from guess_traced_inv [OF Cons.prems(1) s(1)] have i1: "engine_inv u1" by simp
  from calls_inv [OF i1 s(2)] have "tree_le (root (tree u1)) (root (tree u_end))" by simp
  then have le1: "tree_le (root (tree u1)) (root (tree v))"
    using Cons.prems(6) by (rule tree_le_trans)
  from step_sim [OF Cons.prems(1-4) s(1) le1] obtain br' v1 where
    v1: "guess_traced v (Some f) = Inr (g, br', v1)" "br' \<noteq> Scanned"
      "previous v1 = previous u1" "log v1 = log u1" "records v1 = records u1" "tree v1 = tree v"
    by blast
  have "tree_le (root (tree u_end)) (root (tree v1))" using Cons.prems(6) v1(6) by simp
  from Cons.IH [OF i1 v1(3,4,5) s(2) this] obtain out2 v_end where
    r: "calls v1 (map Some fs) = Inr (out2, v_end)" "map fst out2 = map fst out1'"
      "Scanned \<notin> snd ` set out2" "tree v_end = tree v1"
    by blast
  have "calls v (map Some (f # fs)) = Inr ((g, br') # out2, v_end)" using v1(1) r(1) by simp
  then show ?case using r s(3) v1(2,6) by auto
qed

lemma engine_inv_new: "engine_inv GuessNumberAI_new"
proof -
  have "node_record n \<noteq> []" if "strict_walk (root GuessNumberTree_new) h = Some n" for h n
    using that strict_walk_fresh [of "''0123''" h n] by (auto simp: GuessNumberTree_new_def)
  then show ?thesis
    by (auto simp: engine_inv_def GuessNumberAI_new_def initialize_def numbers_def)
qed

lemma engine_inv_initialize: "engine_inv s \<Longrightarrow> engine_inv (initialize s)"
  by (simp add: engine_inv_def initialize_def numbers_def)

lemma guess_guess_traced:
  "guess s r = Inr (g, s') \<Longrightarrow> \<exists>br. guess_traced s r = Inr (g, br, s')"
  by (auto simp: guess_def split: sum.splits)

lemma reachable_inv: "reachable s \<Longrightarrow> engine_inv s"
proof (induction rule: reachable.induct)
  case reachable_new
  show ?case by (rule engine_inv_new)
next
  case (reachable_initialize s)
  then show ?case by (simp add: engine_inv_initialize)
next
  case (reachable_guess s r g s')
  then show ?case using guess_traced_inv guess_guess_traced by blast
qed

text \<open>
  In every state the engine reaches, each child along the history log is present in the
  tree, so there the lookup of the source and the strict walk agree.
\<close>

lemma reachable_path_present:
  assumes "reachable s"
  shows "\<exists>n. strict_walk (root (tree s)) (log s) = Some n"
  using reachable_inv [OF assms] by (auto simp: engine_inv_def)

text \<open>
  Claim C6. Let a game session run on an engine in a reachable state and return normally,
  let any further calls follow on the same engine, and let a second session then receive
  the same feedback sequence. The second session returns normally with the same guesses at
  every step, it never runs the minimax scan, and it leaves the decision cache as it found
  it.
\<close>

theorem cache_consistency:
  assumes "reachable s" and "session s feedback = Inr (out1, s1)"
    and "calls s1 between = Inr (outb, s1')"
  shows "\<exists>out2 s2. session s1' feedback = Inr (out2, s2) \<and> map fst out2 = map fst out1 \<and>
           Scanned \<notin> snd ` set out2 \<and> tree s2 = tree s1'"
proof -
  let ?u0 = "(initialize (initialize s))\<lparr>previous := ''0123''\<rparr>"
  let ?v0 = "(initialize (initialize s1'))\<lparr>previous := ''0123''\<rparr>"
  have g0: "guess_traced (initialize s) None = Inr (''0123'', Opening, ?u0)"
    "guess_traced (initialize s1') None = Inr (''0123'', Opening, ?v0)"
    by (simp_all add: guess_traced_def)
  from assms(2) obtain out1' where
    c1: "calls ?u0 (map Some feedback) = Inr (out1', s1)" "out1 = (''0123'', Opening) # out1'"
    by (auto simp: session_def g0 split: sum.splits)
  have "engine_inv (initialize s)" using assms(1) by (intro engine_inv_initialize reachable_inv)
  from guess_traced_inv [OF this g0(1)] have i0: "engine_inv ?u0" by simp
  from calls_inv [OF i0 c1(1)] have i1: "engine_inv s1" by simp
  have same: "previous ?v0 = previous ?u0" "log ?v0 = log ?u0" "records ?v0 = records ?u0"
    by (simp_all add: initialize_def)
  have tv: "tree ?v0 = tree s1'" by (simp add: initialize_def)
  from calls_inv [OF i1 assms(3)] have "tree_le (root (tree s1)) (root (tree s1'))" by simp
  then have le: "tree_le (root (tree s1)) (root (tree ?v0))" by (simp only: tv)
  from calls_sim [OF i0 same c1(1) le] obtain out2 v_end where
    r: "calls ?v0 (map Some feedback) = Inr (out2, v_end)" "map fst out2 = map fst out1'"
      "Scanned \<notin> snd ` set out2" "tree v_end = tree ?v0"
    by blast
  have "session s1' feedback = Inr ((''0123'', Opening) # out2, v_end)"
    using r(1) by (simp add: session_def g0)
  then show ?thesis using r c1(2) tv by auto
qed

theorem cache_consistency_witness:
  "reachable GuessNumberAI_new \<and>
   session GuessNumberAI_new [''4A4B''] =
     Inr ([(''0123'', Opening), (''0123'', Scanned)],
          \<lparr>previous = ''0123'', log = [(4, 4)], records = [],
           tree = \<lparr>root = TreeNode ''0123''
                     ((replicate 25 None)[24 := Some (TreeNode ''0123'' (replicate 25 None))])\<rparr>\<rparr>) \<and>
   (\<exists>out2 s2.
      session \<lparr>previous = ''0123'', log = [(4, 4)], records = [],
               tree = \<lparr>root = TreeNode ''0123''
                     ((replicate 25 None)[24 := Some (TreeNode ''0123'' (replicate 25 None))])\<rparr>\<rparr>
        [''4A4B''] = Inr (out2, s2) \<and>
      map fst out2 = [''0123'', ''0123''] \<and> Scanned \<notin> snd ` set out2)"
proof -
  let ?s1 = "\<lparr>previous = ''0123'', log = [(4, 4)], records = [],
           tree = \<lparr>root = TreeNode ''0123''
                     ((replicate 25 None)[24 := Some (TreeNode ''0123'' (replicate 25 None))])\<rparr>\<rparr>"
  have r: "reachable GuessNumberAI_new" by (rule reachable_new)
  have o: "guess_traced (initialize GuessNumberAI_new) None =
      Inr (''0123'', Opening,
           \<lparr>previous = ''0123'', log = [], records = number_list, tree = GuessNumberTree_new\<rparr>)"
    by (simp add: guess_traced_def GuessNumberAI_new_def initialize_def number_list_def)
  have s: "session GuessNumberAI_new [''4A4B''] =
      Inr ([(''0123'', Opening), (''0123'', Scanned)], ?s1)"
    by (simp add: session_def o contradiction_trace)
  have b: "calls ?s1 [] = Inr ([], ?s1)" by simp
  from cache_consistency [OF r s b] r s show ?thesis by auto
qed

subsection \<open>The decision cache lookup in reachable states\<close>

lemma update_node_slots:
  assumes "strict_walk t keys = Some n" "update_node t keys g a b = Inr t'"
    and "strict_walk t' h = Some m"
  shows "length (node_next m) = 25 \<or>
         (\<exists>m0. strict_walk t h = Some m0 \<and> length (node_next m0) = length (node_next m))"
  using assms
proof (induction keys arbitrary: t t' h)
  case Nil
  show ?case
  proof (cases "node_next t ! (a * 5 + b)")
    case (Some c)
    then have "t' = t" using Nil.prems(2) by (auto split: if_splits)
    then show ?thesis using Nil.prems(3) by blast
  next
    case None
    then have t': "t' = TreeNode (node_record t)
        ((node_next t)[a * 5 + b := Some (TreeNode g (replicate 25 None))])"
      and lt: "a * 5 + b < length (node_next t)"
      using Nil.prems(2) by (auto split: if_splits)
    show ?thesis
    proof (cases h)
      case Nil
      then have "m = t'" using Nil.prems(3) by simp
      then have "strict_walk t [] = Some t \<and> length (node_next t) = length (node_next m)"
        using t' by simp
      then show ?thesis using Nil by blast
    next
      case (Cons k h')
      from Nil.prems(3) obtain c where c: "fst k * 5 + snd k < length (node_next t')"
        "node_next t' ! (fst k * 5 + snd k) = Some c" "strict_walk c h' = Some m"
        unfolding Cons strict_walk_Cons_Some by blast
      show ?thesis
      proof (cases "fst k * 5 + snd k = a * 5 + b")
        case True
        then have "c = TreeNode g (replicate 25 None)" using c(2) lt t' by simp
        with c(3) have "m = TreeNode g (replicate 25 None)" using strict_walk_fresh by blast
        then show ?thesis by simp
      next
        case False
        then have "node_next t ! (fst k * 5 + snd k) = Some c"
          "fst k * 5 + snd k < length (node_next t)"
          using c(1,2) t' by simp_all
        then have "strict_walk t (k # h') = Some m" using c(3) by simp
        then show ?thesis using Cons by blast
      qed
    qed
  qed
next
  case (Cons key keys)
  from Cons.prems(1) obtain child where
    c: "fst key * 5 + snd key < length (node_next t)"
       "node_next t ! (fst key * 5 + snd key) = Some child" "strict_walk child keys = Some n"
    unfolding strict_walk_Cons_Some by blast
  with Cons.prems(2) obtain child' where
    c': "update_node child keys g a b = Inr child'"
        "t' = TreeNode (node_record t) ((node_next t)[fst key * 5 + snd key := Some child'])"
    by (auto split: sum.splits)
  show ?case
  proof (cases h)
    case Nil
    then have "m = t'" using Cons.prems(3) by simp
    then have "strict_walk t [] = Some t \<and> length (node_next t) = length (node_next m)"
      using c' by simp
    then show ?thesis using Nil by blast
  next
    case (Cons k h')
    show ?thesis
    proof (cases "fst k * 5 + snd k = fst key * 5 + snd key")
      case True
      with Cons Cons.prems(3) c c' have "strict_walk child' h' = Some m" by simp
      from Cons.IH [OF c(3) c'(1) this] show ?thesis using Cons True c by simp
    next
      case False
      then show ?thesis using Cons Cons.prems(3) c' c
        by (auto simp: strict_walk_Cons_Some)
    qed
  qed
qed

lemma reachable_slots:
  assumes "reachable s"
  shows "strict_walk (root (tree s)) h = Some n \<Longrightarrow> length (node_next n) = 25"
  using assms
proof (induction arbitrary: h n rule: reachable.induct)
  case reachable_new
  then show ?case
    using strict_walk_fresh [of "''0123''" h n]
    by (auto simp: GuessNumberAI_new_def initialize_def GuessNumberTree_new_def)
next
  case (reachable_initialize s)
  then show ?case by (simp add: initialize_def)
next
  case (reachable_guess s r g s')
  from reachable_guess.hyps(2) obtain br where gt: "guess_traced s r = Inr (g, br, s')"
    using guess_guess_traced by blast
  show ?case
  proof (cases r)
    case None
    then have "s' = (initialize s)\<lparr>previous := ''0123''\<rparr>" using gt by (auto simp: guess_traced_def)
    then have "tree s' = tree s" by (simp add: initialize_def)
    then show ?thesis using reachable_guess.IH reachable_guess.prems by simp
  next
    case (Some fb)
    from gt [unfolded Some] show ?thesis
    proof (cases rule: guess_traced_SomeE)
      case (single a b s1)
      then have "tree s' = tree s" using filter_record_fields [OF single(2)] by simp
      then show ?thesis using reachable_guess.IH reachable_guess.prems by simp
    next
      case (cached a b s1)
      then have "tree s' = tree s" using filter_record_fields [OF cached(2)] by simp
      then show ?thesis using reachable_guess.IH reachable_guess.prems by simp
    next
      case (scanned a b s1 v s2)
      have f: "log s1 = log s" "tree s1 = tree s"
        using filter_record_fields [OF scanned(2)] by simp_all
      obtain n0 where n0: "strict_walk (root (tree s)) (log s) = Some n0"
        using reachable_path_present [OF reachable_guess.hyps(1)] by blast
      have u: "update_node (root (tree s)) (log s) g a b = Inr (root (tree s2))"
        using update_tree_fields [OF scanned(6)] f by simp
      have "strict_walk (root (tree s2)) h = Some n"
        using reachable_guess.prems scanned(8) by simp
      from update_node_slots [OF n0 u this] show ?thesis using reachable_guess.IH by auto
    qed
  qed
qed

text \<open>
  Claim C3. In every state the engine reaches, and for every newest pair \<open>(a, b)\<close> that has
  one of the 25 slots, the lookup returns what the strict walk along the history (the log
  extended by the newest pair) finds: the guess of the node at the end of the path, and a
  miss, the empty string, exactly when the path is not in the tree. So whenever the child
  required at some step of the history is absent, the lookup returns a miss. The branch of
  the loop that skips an absent child is never taken on the log of a reachable state: each
  child along the log is present.
\<close>

theorem search_tree_strict:
  assumes "reachable s" and "a * 5 + b < 25"
  shows "search_tree s a b =
         Inr (case spec_lookup (root (tree s)) (log s @ [(a, b)]) of None \<Rightarrow> [] | Some g \<Rightarrow> g) \<and>
         (strict_walk (root (tree s)) (log s @ [(a, b)]) = None \<longleftrightarrow> search_tree s a b = Inr []) \<and>
         (\<forall>keys rest. log s @ [(a, b)] = keys @ rest \<and> strict_walk (root (tree s)) keys = None \<longrightarrow>
            search_tree s a b = Inr [])"
proof -
  obtain n where n: "strict_walk (root (tree s)) (log s) = Some n"
    using reachable_path_present [OF assms(1)] by blast
  have "length (node_next n) = 25" using assms(1) n by (rule reachable_slots)
  then have 1: "search_tree s a b =
         Inr (case spec_lookup (root (tree s)) (log s @ [(a, b)]) of None \<Rightarrow> [] | Some g \<Rightarrow> g)"
    using search_tree_present [OF n, of a b] assms(2) by simp
  have ne: "node_record c \<noteq> []" if "strict_walk (root (tree s)) h = Some c" for h c
    using reachable_inv [OF assms(1)] that by (auto simp: engine_inv_def)
  have 2: "strict_walk (root (tree s)) (log s @ [(a, b)]) = None \<longleftrightarrow> search_tree s a b = Inr []"
    using 1 ne by (auto simp: spec_lookup_def split: option.splits)
  have 3: "search_tree s a b = Inr []"
    if "log s @ [(a, b)] = keys @ rest" "strict_walk (root (tree s)) keys = None" for keys rest
  proof -
    have "strict_walk (root (tree s)) (keys @ rest) = None"
      using that(2) by (simp add: strict_walk_append)
    then have "strict_walk (root (tree s)) (log s @ [(a, b)]) = None" by (simp only: that(1))
    then show ?thesis using 2 by simp
  qed
  from 1 2 3 show ?thesis by blast
qed

text \<open>
  A reachable state with a cached guess: the opening guess, the feedback \<open>4A4B\<close>, then
  \<open>initialize\<close> for the next game.
\<close>

lemma reachable_cached:
  "reachable
     (initialize \<lparr>previous = ''0123'', log = [(4, 4)], records = [],
         tree = \<lparr>root = TreeNode ''0123''
                   ((replicate 25 None)[24 := Some (TreeNode ''0123'' (replicate 25 None))])\<rparr>\<rparr>)"
proof -
  have "reachable \<lparr>previous = ''0123'', log = [], records = number_list, tree = GuessNumberTree_new\<rparr>"
    using reachable_new opening_guess by (rule reachable_guess)
  moreover have "guess \<lparr>previous = ''0123'', log = [], records = number_list, tree = GuessNumberTree_new\<rparr>
     (Some ''4A4B'') =
   Inr (''0123'',
        \<lparr>previous = ''0123'', log = [(4, 4)], records = [],
         tree = \<lparr>root = TreeNode ''0123''
                   ((replicate 25 None)[24 := Some (TreeNode ''0123'' (replicate 25 None))])\<rparr>\<rparr>)"
    by (simp add: guess_def contradiction_trace)
  ultimately have "reachable \<lparr>previous = ''0123'', log = [(4, 4)], records = [],
         tree = \<lparr>root = TreeNode ''0123''
                   ((replicate 25 None)[24 := Some (TreeNode ''0123'' (replicate 25 None))])\<rparr>\<rparr>"
    by (rule reachable_guess)
  then show ?thesis by (rule reachable_initialize)
qed

theorem search_tree_strict_witness:
  "reachable
     (initialize \<lparr>previous = ''0123'', log = [(4, 4)], records = [],
         tree = \<lparr>root = TreeNode ''0123''
                   ((replicate 25 None)[24 := Some (TreeNode ''0123'' (replicate 25 None))])\<rparr>\<rparr>) \<and>
   (4 :: nat) * 5 + 4 < 25 \<and>
   search_tree
     (initialize \<lparr>previous = ''0123'', log = [(4, 4)], records = [],
         tree = \<lparr>root = TreeNode ''0123''
                   ((replicate 25 None)[24 := Some (TreeNode ''0123'' (replicate 25 None))])\<rparr>\<rparr>) 4 4
     = Inr ''0123'' \<and>
   strict_walk
     (root (tree (initialize \<lparr>previous = ''0123'', log = [(4, 4)], records = [],
         tree = \<lparr>root = TreeNode ''0123''
                   ((replicate 25 None)[24 := Some (TreeNode ''0123'' (replicate 25 None))])\<rparr>\<rparr>)))
     [(0, 1)] = None \<and>
   search_tree
     (initialize \<lparr>previous = ''0123'', log = [(4, 4)], records = [],
         tree = \<lparr>root = TreeNode ''0123''
                   ((replicate 25 None)[24 := Some (TreeNode ''0123'' (replicate 25 None))])\<rparr>\<rparr>) 0 1
     = Inr []"
proof -
  let ?s = "initialize \<lparr>previous = ''0123'', log = [(4, 4)], records = [],
         tree = \<lparr>root = TreeNode ''0123''
                   ((replicate 25 None)[24 := Some (TreeNode ''0123'' (replicate 25 None))])\<rparr>\<rparr>"
  have l: "(4 :: nat) * 5 + 4 < 25" "(0 :: nat) * 5 + 1 < 25" by simp_all
  from search_tree_strict [OF reachable_cached l(1)]
  have "search_tree ?s 4 4 =
      Inr (case spec_lookup (root (tree ?s)) (log ?s @ [(4, 4)]) of None \<Rightarrow> [] | Some g \<Rightarrow> g)"
    by blast
  then have 1: "search_tree ?s 4 4 = Inr ''0123''"
    by (simp add: initialize_def spec_lookup_def)
  have w: "strict_walk (root (tree ?s)) [(0, 1)] = None" by (simp add: initialize_def)
  have e: "log ?s @ [(0, 1)] = [(0, 1)] @ []" by (simp add: initialize_def)
  from search_tree_strict [OF reachable_cached l(2)] e w
  have 2: "search_tree ?s 0 1 = Inr []" by blast
  from reachable_cached l(1) 1 w 2 show ?thesis by blast
qed

end
